theory Spec2Isabelle
  imports Complex_Main "HOL-Library.Word" "HOL-Library.Multiset"
begin

unbundle bit_operations_syntax

section \<open>Machine types\<close>

type_synonym u32 = "32 word"
type_synonym u64 = "64 word"

section \<open>H3 hierarchy utilities (h3\_utils.cpp)\<close>

text \<open>
  The functions of \<^verbatim>\<open>h3_utils.cpp\<close> wrap two calls of the external H3 library,
  \<^verbatim>\<open>getResolution\<close> and \<^verbatim>\<open>cellToParent\<close>.  The library is not part of the
  repository, so both calls are parameters of the model: a record of the two functions.
  \<^verbatim>\<open>cellToParent\<close> writes its result through a pointer and returns an error code;
  here it returns \<open>None\<close> for every code other than \<^verbatim>\<open>E_SUCCESS\<close>.
\<close>

record H3Lib =
  getResolution :: "u64 \<Rightarrow> int"
  cellToParent :: "u64 \<Rightarrow> int \<Rightarrow> u64 option"

definition get_resolution :: "H3Lib \<Rightarrow> u64 \<Rightarrow> int" where
  "get_resolution h cell = (if cell = 0 then -1 else getResolution h cell)"

definition cell_to_parent :: "H3Lib \<Rightarrow> u64 \<Rightarrow> int \<Rightarrow> u64" where
  "cell_to_parent h cell target_res =
     (if cell = 0 \<or> target_res < 0 then 0
      else let current_res = getResolution h cell in
        if target_res \<ge> current_res then cell
        else (case cellToParent h cell target_res of
                None \<Rightarrow> 0
              | Some parent \<Rightarrow> parent))"

text \<open>The \<^verbatim>\<open>while (c1 != c2 && min_res > 0)\<close> loop of \<^verbatim>\<open>find_lca\<close>.\<close>

function find_lca_loop :: "H3Lib \<Rightarrow> u64 \<Rightarrow> u64 \<Rightarrow> int \<Rightarrow> u64 \<times> u64" where
  "find_lca_loop h c1 c2 min_res =
     (if c1 \<noteq> c2 \<and> min_res > 0
      then find_lca_loop h (cell_to_parent h c1 (min_res - 1))
                           (cell_to_parent h c2 (min_res - 1)) (min_res - 1)
      else (c1, c2))"
  by pat_completeness auto
termination
  by (relation "measure (\<lambda>(h, c1, c2, min_res). nat min_res)") auto

declare find_lca_loop.simps [simp del]

definition find_lca :: "H3Lib \<Rightarrow> u64 \<Rightarrow> u64 \<Rightarrow> u64" where
  "find_lca h cell1 cell2 =
     (if cell1 = 0 \<or> cell2 = 0 then 0
      else let res1 = getResolution h cell1;
               res2 = getResolution h cell2;
               min_res = (if res1 < res2 then res1 else res2);
               c1 = (if res1 > min_res then cell_to_parent h cell1 min_res else cell1);
               c2 = (if res2 > min_res then cell_to_parent h cell2 min_res else cell2);
               (c1', c2') = find_lca_loop h c1 c2 min_res
           in if c1' = c2' then c1' else 0)"

definition parent_check :: "H3Lib \<Rightarrow> u64 \<Rightarrow> u64 \<Rightarrow> int \<Rightarrow> bool" where
  "parent_check h node_cell high_cell high_res =
     (if high_cell = 0 \<or> high_res < 0 then True
      else if node_cell = 0 then False
      else let node_res = getResolution h node_cell in
        if high_res > node_res then False
        else cell_to_parent h node_cell high_res = high_cell)"

text \<open>
  What the wrappers rely on from the library: a resolution is never negative; the parent
  of a cell at a coarser resolution exists and has that resolution; and taking parents
  in two steps gives the parent taken in one.
\<close>

definition h3_lawful :: "H3Lib \<Rightarrow> bool" where
  "h3_lawful h \<longleftrightarrow>
     (\<forall>c. 0 \<le> getResolution h c) \<and>
     (\<forall>c r. c \<noteq> 0 \<and> 0 \<le> r \<and> r < getResolution h c \<longrightarrow>
        (\<exists>p. cellToParent h c r = Some p \<and> getResolution h p = r)) \<and>
     (\<forall>c r1 r2 p. c \<noteq> 0 \<and> 0 \<le> r2 \<and> r2 < r1 \<and> r1 < getResolution h c \<and>
        cellToParent h c r1 = Some p \<and> p \<noteq> 0 \<longrightarrow>
        cellToParent h p r2 = cellToParent h c r2)"

text \<open>
  The H3 library's own two functions on the 64-bit cell layout (resolution in bits
  52..55, one 3-bit digit per resolution level, digit \<open>i\<close> at bit \<open>3 * (15 - i)\<close>), as an
  instance of the parameters: \<^verbatim>\<open>cellToParent\<close> rejects a resolution outside 0..15 or
  finer than the cell's, writes the parent resolution and sets every digit below it to 7.
\<close>

definition h3_getResolution :: "u64 \<Rightarrow> int" where
  "h3_getResolution c = uint (drop_bit 52 c AND 15)"

fun h3_set_digits :: "u64 \<Rightarrow> nat \<Rightarrow> nat \<Rightarrow> u64" where
  "h3_set_digits c lo 0 = c"
| "h3_set_digits c lo (Suc n) = h3_set_digits (c OR push_bit (3 * (15 - (lo + n))) 7) lo n"

definition h3_cellToParent :: "u64 \<Rightarrow> int \<Rightarrow> u64 option" where
  "h3_cellToParent c parentRes =
     (let childRes = h3_getResolution c in
      if parentRes < 0 \<or> parentRes > 15 then None
      else if parentRes > childRes then None
      else if parentRes = childRes then Some c
      else Some (h3_set_digits
                   ((c AND NOT (push_bit 52 15)) OR push_bit 52 (word_of_int parentRes))
                   (nat parentRes + 1) (nat (childRes - parentRes))))"

definition h3_library :: H3Lib where
  "h3_library = \<lparr> getResolution = h3_getResolution, cellToParent = h3_cellToParent \<rparr>"


section \<open>The CSR store (csr\_graph.hpp)\<close>

text \<open>
  Costs and distances are \<^verbatim>\<open>float\<close> and \<^verbatim>\<open>double\<close> in the source; the model computes
  with exact reals, so rounding is not modelled.  Edge identifiers are 32-bit unsigned
  words, cells 64-bit words.  \<^verbatim>\<open>CSRShortcut\<close> stores \<^verbatim>\<open>via_edge\<close> in a 30-bit and
  \<^verbatim>\<open>inside\<close> in a signed 2-bit field; the model keeps \<open>sc_via_edge\<close> as a 32-bit word and
  \<open>sc_inside\<close> as an integer and narrows both where the loader writes them.
\<close>

record CSRShortcut =
  sc_cell :: u64
  sc_cost :: real
  sc_from :: u32
  sc_to :: u32
  sc_via_edge :: u32
  sc_inside :: int

record CSREdgeMeta =
  to_cell :: u64
  from_cell :: u64
  lca_res :: int
  length_m :: real
  cost :: real

record CSRGraph =
  shortcuts :: "CSRShortcut list"
  fwd_offsets :: "u32 list"
  bwd_offsets :: "u32 list"
  bwd_indices :: "u32 list"
  max_edge_id :: u32
  edge_meta :: "u32 \<rightharpoonup> CSREdgeMeta"

record CSRQueryResult =
  distance :: real
  path :: "u32 list"
  reachable :: bool
  error :: string

text \<open>
  A read or write past the end of a vector is undefined behaviour in the source.  The
  model makes it a result of its own, so that no theorem silently depends on it.
\<close>

datatype 'a outcome = Returns 'a | OutOfBounds

definition get_res :: "CSRShortcut \<Rightarrow> int" where
  "get_res sc = (if sc_cell sc = 0 then -1 else sint (ucast (drop_bit 52 (sc_cell sc) AND 15) :: 8 word))"

definition get_edge_cost :: "CSRGraph \<Rightarrow> u32 \<Rightarrow> real" where
  "get_edge_cost g edge_id = (case edge_meta g edge_id of Some m \<Rightarrow> cost m | None \<Rightarrow> 0)"

text \<open>\<^verbatim>\<open>edge_id + 1\<close> is computed in 32 bits and wraps at \<open>2^32 - 1\<close>.\<close>

definition is_valid_edge :: "CSRGraph \<Rightarrow> u32 \<Rightarrow> bool" where
  "is_valid_edge g edge_id \<longleftrightarrow>
     edge_id \<le> max_edge_id g \<and>
     unat (edge_id + 1) < length (fwd_offsets g) \<and>
     unat (edge_id + 1) < length (bwd_offsets g)"

definition get_fwd_range :: "CSRGraph \<Rightarrow> u32 \<Rightarrow> (u32 \<times> u32) outcome" where
  "get_fwd_range g edge_id =
     (if \<not> is_valid_edge g edge_id then Returns (0, 0)
      else if unat edge_id < length (fwd_offsets g)
      then Returns (fwd_offsets g ! unat edge_id, fwd_offsets g ! unat (edge_id + 1))
      else OutOfBounds)"

definition get_bwd_range :: "CSRGraph \<Rightarrow> u32 \<Rightarrow> (u32 \<times> u32) outcome" where
  "get_bwd_range g edge_id =
     (if \<not> is_valid_edge g edge_id then Returns (0, 0)
      else if unat edge_id < length (bwd_offsets g)
      then Returns (bwd_offsets g ! unat edge_id, bwd_offsets g ! unat (edge_id + 1))
      else OutOfBounds)"

text \<open>
  The scan of \<^verbatim>\<open>find_shortcut_index\<close> over the indices \<open>first, first + 1, \<dots>\<close>, given
  as the number \<open>n\<close> of indices left.  It reads \<^verbatim>\<open>shortcuts_[i]\<close> without a bound check.
  The result is the index converted to \<^verbatim>\<open>int\<close>, or \<open>-1\<close>.
\<close>

fun find_shortcut_scan :: "CSRShortcut list \<Rightarrow> u32 \<Rightarrow> nat \<Rightarrow> nat \<Rightarrow> int outcome" where
  "find_shortcut_scan scs v i 0 = Returns (-1)"
| "find_shortcut_scan scs v i (Suc n) =
     (if i < length scs
      then (if sc_to (scs ! i) = v then Returns (sint (word_of_nat i :: u32))
            else find_shortcut_scan scs v (Suc i) n)
      else OutOfBounds)"

definition find_shortcut_index :: "CSRGraph \<Rightarrow> u32 \<Rightarrow> u32 \<Rightarrow> int outcome" where
  "find_shortcut_index g u v =
     (case get_fwd_range g u of
        OutOfBounds \<Rightarrow> OutOfBounds
      | Returns (first, second) \<Rightarrow>
          find_shortcut_scan (shortcuts g) v (unat first) (unat second - unat first))"

section \<open>Path expansion (CSRGraph::expand\_path)\<close>

text \<open>
  The recursive lambda \<^verbatim>\<open>expand\<close> only appends to \<^verbatim>\<open>result\<close>; \<open>expand g u v depth\<close> is
  the sequence it appends, in order.  \<^verbatim>\<open>static_cast<int>(shortcuts_.size())\<close> keeps the low
  32 bits of the size, read as signed.
\<close>

function expand :: "CSRGraph \<Rightarrow> u32 \<Rightarrow> u32 \<Rightarrow> int \<Rightarrow> u32 list outcome" where
  "expand g u v depth =
     (if depth > 50 then Returns [u]
      else case find_shortcut_index g u v of
        OutOfBounds \<Rightarrow> OutOfBounds
      | Returns idx \<Rightarrow>
          if idx < 0 \<or> idx \<ge> sint (word_of_nat (length (shortcuts g)) :: u32) then Returns [u]
          else let via = sc_via_edge (shortcuts g ! nat idx) in
            if via = u \<or> via = v \<or> via = 0 then Returns [u]
            else (case expand g u via (depth + 1) of
                    OutOfBounds \<Rightarrow> OutOfBounds
                  | Returns xs \<Rightarrow>
                     (case expand g via v (depth + 1) of
                        OutOfBounds \<Rightarrow> OutOfBounds
                      | Returns ys \<Rightarrow> Returns (xs @ ys))))"
  by pat_completeness auto
termination
  by (relation "measure (\<lambda>(g, u, v, depth). nat (51 - depth))") auto

declare expand.simps [simp del]

text \<open>The loop over consecutive pairs of the shortcut path.\<close>

fun expand_pairs :: "CSRGraph \<Rightarrow> u32 list \<Rightarrow> u32 list outcome" where
  "expand_pairs g (a # b # rest) =
     (case expand g a b 0 of
        OutOfBounds \<Rightarrow> OutOfBounds
      | Returns xs \<Rightarrow>
         (case expand_pairs g (b # rest) of
            OutOfBounds \<Rightarrow> OutOfBounds
          | Returns ys \<Rightarrow> Returns (xs @ ys)))"
| "expand_pairs g _ = Returns []"

definition expand_path :: "CSRGraph \<Rightarrow> u32 list \<Rightarrow> u32 list outcome" where
  "expand_path g shortcut_path =
     (if length shortcut_path \<le> 1 then Returns shortcut_path
      else case expand_pairs g shortcut_path of
        OutOfBounds \<Rightarrow> OutOfBounds
      | Returns result \<Rightarrow>
          Returns (if shortcut_path \<noteq> [] then result @ [last shortcut_path] else result))"

text \<open>The loop invariant of \<^verbatim>\<open>find_lca\<close>: \<open>c\<close> is 0 or the ancestor of \<open>cell\<close> at resolution \<open>m\<close>.\<close>

definition lca_inv :: "H3Lib \<Rightarrow> u64 \<Rightarrow> u64 \<Rightarrow> int \<Rightarrow> bool" where
  "lca_inv h cell c m \<longleftrightarrow>
     c = 0 \<or> (0 \<le> m \<and> m \<le> getResolution h cell \<and> c = cell_to_parent h cell m \<and> getResolution h c = m)"

text \<open>The value \<open>h3_cellToParent\<close> computes for a resolution \<open>r\<close> coarser than the cell's.\<close>

definition h3_parent :: "u64 \<Rightarrow> nat \<Rightarrow> u64" where
  "h3_parent c r = h3_set_digits ((c AND NOT (push_bit 52 15)) OR push_bit 52 (word_of_nat r))
       (r + 1) (nat (h3_getResolution c) - r)"

text \<open>
  Every valid edge's forward range is read inside \<open>fwd_offsets\<close> and ends inside
  \<open>shortcuts\<close>: what \<^verbatim>\<open>find_shortcut_index\<close> needs to stay inside its vectors.
\<close>

definition csr_in_bounds :: "CSRGraph \<Rightarrow> bool" where
  "csr_in_bounds g \<longleftrightarrow>
     list_all (\<lambda>i. let u = (word_of_nat i :: u32) in
                 is_valid_edge g u \<longrightarrow>
                   unat u < length (fwd_offsets g) \<and>
                   unat (fwd_offsets g ! unat (u + 1)) \<le> length (shortcuts g))
       [0 ..< Suc (unat (max_edge_id g))]"

text \<open>
  Whether the expansion of the pair \<open>(u, v)\<close>, started at \<open>depth\<close>, reaches the depth cap
  (the branch \<^verbatim>\<open>depth > 50\<close> of \<^verbatim>\<open>expand\<close>) anywhere in its recursion.
\<close>

function expand_cut :: "CSRGraph \<Rightarrow> u32 \<Rightarrow> u32 \<Rightarrow> int \<Rightarrow> bool" where
  "expand_cut g u v depth =
     (if depth > 50 then True
      else case find_shortcut_index g u v of
        OutOfBounds \<Rightarrow> False
      | Returns idx \<Rightarrow>
          if idx < 0 \<or> idx \<ge> sint (word_of_nat (length (shortcuts g)) :: u32) then False
          else let via = sc_via_edge (shortcuts g ! nat idx) in
            if via = u \<or> via = v \<or> via = 0 then False
            else expand_cut g u via (depth + 1) \<or> expand_cut g via v (depth + 1))"
  by pat_completeness auto
termination
  by (relation "measure (\<lambda>(g, u, v, depth). nat (51 - depth))") auto

declare expand_cut.simps [simp del]

section \<open>Query engine (csr\_graph.cpp)\<close>

subsection \<open>Distances with infinity, priority queues\<close>

text \<open>
  \<^verbatim>\<open>best\<close> and the arrival bounds start at \<^verbatim>\<open>INF\<close>; every other distance is finite.
\<close>

datatype xreal = Fin real | PInf

fun xless :: "xreal \<Rightarrow> xreal \<Rightarrow> bool" where
  "xless (Fin a) (Fin b) = (a < b)"
| "xless (Fin a) PInf = True"
| "xless PInf b = False"

fun xmin :: "xreal \<Rightarrow> xreal \<Rightarrow> xreal" where
  "xmin (Fin a) (Fin b) = Fin (min a b)"
| "xmin (Fin a) PInf = Fin a"
| "xmin PInf b = b"

fun xplus :: "real \<Rightarrow> xreal \<Rightarrow> xreal" where
  "xplus a (Fin b) = Fin (a + b)"
| "xplus a PInf = PInf"

text \<open>
  A \<^verbatim>\<open>std::priority_queue\<close> ordered by \<^verbatim>\<open>dist\<close> alone, as the list of its entries in
  the order they were pushed.  \<^verbatim>\<open>top\<close> is an entry of least \<^verbatim>\<open>dist\<close>; among entries of
  equal \<^verbatim>\<open>dist\<close> the source leaves the choice to the heap layout, the model takes the one
  pushed first.
\<close>

fun pq_least :: "(real \<times> 'a) \<Rightarrow> (real \<times> 'a) list \<Rightarrow> (real \<times> 'a)" where
  "pq_least m [] = m"
| "pq_least m (x # xs) = pq_least (if fst x < fst m then x else m) xs"

fun pq_top :: "(real \<times> 'a) list \<Rightarrow> (real \<times> 'a) option" where
  "pq_top [] = None"
| "pq_top (x # xs) = Some (pq_least x xs)"

definition pq_pop :: "(real \<times> 'a) list \<Rightarrow> (real \<times> 'a) list" where
  "pq_pop pq = (case pq_top pq of None \<Rightarrow> pq | Some e \<Rightarrow> remove1 e pq)"

definition pq_push :: "(real \<times> 'a) \<Rightarrow> (real \<times> 'a) list \<Rightarrow> (real \<times> 'a) list" where
  "pq_push e pq = pq @ [e]"

subsection \<open>Adjacency scans\<close>

text \<open>
  The shortcuts visited by \<^verbatim>\<open>for (i = start; i < end && i < shortcuts_.size(); ++i)\<close>,
  and by the backward loop over \<^verbatim>\<open>bwd_indices_\<close>, which skips an index that is not below
  \<^verbatim>\<open>shortcuts_.size()\<close>.  The store is not changed by a query, so the list is fixed when
  the loop starts.
\<close>

definition fwd_neighbours :: "CSRGraph \<Rightarrow> u32 \<Rightarrow> CSRShortcut list outcome" where
  "fwd_neighbours g u =
     (case get_fwd_range g u of
        OutOfBounds \<Rightarrow> OutOfBounds
      | Returns (start, stop) \<Rightarrow>
          Returns (map (\<lambda>i. shortcuts g ! i)
                     [unat start ..< min (unat stop) (length (shortcuts g))]))"

definition bwd_neighbours :: "CSRGraph \<Rightarrow> u32 \<Rightarrow> CSRShortcut list outcome" where
  "bwd_neighbours g u =
     (case get_bwd_range g u of
        OutOfBounds \<Rightarrow> OutOfBounds
      | Returns (start, stop) \<Rightarrow>
          Returns (map (\<lambda>idx. shortcuts g ! idx)
                     (filter (\<lambda>idx. idx < length (shortcuts g))
                        (map (\<lambda>k. unat (bwd_indices g ! k))
                           [unat start ..< min (unat stop) (length (bwd_indices g))]))))"

subsection \<open>Bidirectional search state and relaxation\<close>

record BiState =
  dist_fwd :: "u32 \<rightharpoonup> real"
  dist_bwd :: "u32 \<rightharpoonup> real"
  parent_fwd :: "u32 \<rightharpoonup> u32"
  parent_bwd :: "u32 \<rightharpoonup> u32"
  pq_fwd :: "(real \<times> u32) list"
  pq_bwd :: "(real \<times> u32) list"
  best :: xreal
  meeting :: u32
  found :: bool

text \<open>
  The relaxation of one shortcut out of \<open>u\<close>, popped at distance \<open>d\<close>; the same code in
  \<^verbatim>\<open>query_classic\<close>, \<^verbatim>\<open>query_bidijkstra\<close> and \<^verbatim>\<open>query_multi\<close>.
\<close>

definition relax_fwd :: "real \<Rightarrow> u32 \<Rightarrow> CSRShortcut \<Rightarrow> BiState \<Rightarrow> BiState" where
  "relax_fwd d u sc st =
     (let nd = d + sc_cost sc in
      if (case dist_fwd st (sc_to sc) of None \<Rightarrow> True | Some x \<Rightarrow> nd < x)
      then let st1 = st\<lparr> dist_fwd := (dist_fwd st)(sc_to sc \<mapsto> nd),
                         parent_fwd := (parent_fwd st)(sc_to sc \<mapsto> u),
                         pq_fwd := pq_push (nd, sc_to sc) (pq_fwd st) \<rparr> in
        (case dist_bwd st (sc_to sc) of
           None \<Rightarrow> st1
         | Some b \<Rightarrow>
             if xless (Fin (nd + b)) (best st)
             then st1\<lparr> best := Fin (nd + b), meeting := sc_to sc, found := True \<rparr>
             else st1)
      else st)"

definition relax_bwd :: "real \<Rightarrow> u32 \<Rightarrow> CSRShortcut \<Rightarrow> BiState \<Rightarrow> BiState" where
  "relax_bwd d u sc st =
     (let nd = d + sc_cost sc in
      if (case dist_bwd st (sc_from sc) of None \<Rightarrow> True | Some x \<Rightarrow> nd < x)
      then let st1 = st\<lparr> dist_bwd := (dist_bwd st)(sc_from sc \<mapsto> nd),
                         parent_bwd := (parent_bwd st)(sc_from sc \<mapsto> u),
                         pq_bwd := pq_push (nd, sc_from sc) (pq_bwd st) \<rparr> in
        (case dist_fwd st (sc_from sc) of
           None \<Rightarrow> st1
         | Some f \<Rightarrow>
             if xless (Fin (f + nd)) (best st)
             then st1\<lparr> best := Fin (f + nd), meeting := sc_from sc, found := True \<rparr>
             else st1)
      else st)"

text \<open>
  Path reconstruction: from the meeting edge along \<^verbatim>\<open>parent_fwd\<close> to a root (an edge
  that is its own parent or has none), reversed, then along \<^verbatim>\<open>parent_bwd\<close>.  Both are
  \<^verbatim>\<open>while (true)\<close> loops; \<open>None\<close> is a loop that never leaves.
\<close>

partial_function (option) trace_fwd :: "(u32 \<rightharpoonup> u32) \<Rightarrow> u32 \<Rightarrow> u32 list \<Rightarrow> u32 list option" where
  "trace_fwd parent cur acc =
     (let acc1 = acc @ [cur] in
      case parent cur of
        None \<Rightarrow> Some acc1
      | Some p \<Rightarrow> if p = cur then Some acc1 else trace_fwd parent p acc1)"

declare trace_fwd.simps [code]

partial_function (option) trace_bwd :: "(u32 \<rightharpoonup> u32) \<Rightarrow> u32 \<Rightarrow> u32 list \<Rightarrow> u32 list option" where
  "trace_bwd parent cur acc =
     (case parent cur of
        None \<Rightarrow> Some acc
      | Some p \<Rightarrow> if p = cur then Some acc else trace_bwd parent p (acc @ [p]))"

declare trace_bwd.simps [code]

definition reconstruct :: "(u32 \<rightharpoonup> u32) \<Rightarrow> (u32 \<rightharpoonup> u32) \<Rightarrow> u32 \<Rightarrow> u32 list option" where
  "reconstruct pf pb m =
     (case trace_fwd pf m [] of
        None \<Rightarrow> None
      | Some up \<Rightarrow> trace_bwd pb m (rev up))"

definition no_result :: "string \<Rightarrow> CSRQueryResult" where
  "no_result msg = \<lparr> distance = -1, path = [], reachable = False, error = msg \<rparr>"

definition self_result :: "CSRGraph \<Rightarrow> u32 \<Rightarrow> CSRQueryResult" where
  "self_result g e = \<lparr> distance = get_edge_cost g e, path = [e], reachable = True, error = [] \<rparr>"

definition the_fin :: "xreal \<Rightarrow> real" where
  "the_fin x = (case x of Fin a \<Rightarrow> a | PInf \<Rightarrow> 0)"

text \<open>
  The common tail of the bidirectional queries: \<^verbatim>\<open>if (!found) return \<dots>\<close>, reconstruct,
  return \<^verbatim>\<open>{best, path, true, ""}\<close>.  \<^verbatim>\<open>found\<close> is only set together with a finite
  \<^verbatim>\<open>best\<close>.
\<close>

definition bi_finish :: "string \<Rightarrow> BiState \<Rightarrow> CSRQueryResult option" where
  "bi_finish msg st =
     (if \<not> found st then Some (no_result msg)
      else case reconstruct (parent_fwd st) (parent_bwd st) (meeting st) of
        None \<Rightarrow> None
      | Some p \<Rightarrow> Some \<lparr> distance = the_fin (best st), path = p, reachable = True, error = [] \<rparr>)"

subsection \<open>query\_classic\<close>

definition classic_init :: "CSRGraph \<Rightarrow> u32 \<Rightarrow> u32 \<Rightarrow> BiState" where
  "classic_init g source_edge target_edge =
     (let target_cost = get_edge_cost g target_edge in
      \<lparr> dist_fwd = [source_edge \<mapsto> 0],
        dist_bwd = [target_edge \<mapsto> target_cost],
        parent_fwd = [source_edge \<mapsto> source_edge],
        parent_bwd = [target_edge \<mapsto> target_edge],
        pq_fwd = pq_push (0, source_edge) [],
        pq_bwd = pq_push (target_cost, target_edge) [],
        best = PInf, meeting = 0, found = False \<rparr>)"

text \<open>
  One forward and one backward step of the main loop.  The flag is \<open>True\<close> when the step
  left through \<^verbatim>\<open>continue\<close>, which skips the rest of the loop body.
\<close>

definition classic_fwd_step :: "CSRGraph \<Rightarrow> BiState \<Rightarrow> (BiState \<times> bool) outcome" where
  "classic_fwd_step g st =
     (case pq_top (pq_fwd st) of
        None \<Rightarrow> Returns (st, False)
      | Some (d, u) \<Rightarrow>
          let st1 = st\<lparr> pq_fwd := pq_pop (pq_fwd st) \<rparr> in
          if (case dist_fwd st1 u of None \<Rightarrow> False | Some x \<Rightarrow> d > x) then Returns (st1, True)
          else if \<not> xless (Fin d) (best st1) then Returns (st1, True)
          else (case fwd_neighbours g u of
                  OutOfBounds \<Rightarrow> OutOfBounds
                | Returns scs \<Rightarrow>
                    Returns (fold (\<lambda>sc s. if sc_inside sc \<noteq> 1 then s else relax_fwd d u sc s)
                               scs st1, False)))"

definition classic_bwd_step :: "CSRGraph \<Rightarrow> BiState \<Rightarrow> (BiState \<times> bool) outcome" where
  "classic_bwd_step g st =
     (case pq_top (pq_bwd st) of
        None \<Rightarrow> Returns (st, False)
      | Some (d, u) \<Rightarrow>
          let st1 = st\<lparr> pq_bwd := pq_pop (pq_bwd st) \<rparr> in
          if (case dist_bwd st1 u of None \<Rightarrow> False | Some x \<Rightarrow> d > x) then Returns (st1, True)
          else if \<not> xless (Fin d) (best st1) then Returns (st1, True)
          else (case bwd_neighbours g u of
                  OutOfBounds \<Rightarrow> OutOfBounds
                | Returns scs \<Rightarrow>
                    Returns (fold (\<lambda>sc s. if sc_inside sc \<noteq> -1 \<and> sc_inside sc \<noteq> 0 then s
                                          else relax_bwd d u sc s)
                               scs st1, False)))"

definition classic_stop :: "BiState \<Rightarrow> bool" where
  "classic_stop st =
     (case (pq_top (pq_fwd st), pq_top (pq_bwd st)) of
        (Some (df, uf), Some (db, ub)) \<Rightarrow>
          \<not> xless (Fin df) (best st) \<and> \<not> xless (Fin db) (best st)
      | (None, None) \<Rightarrow> True
      | _ \<Rightarrow> False)"

partial_function (option) classic_loop :: "CSRGraph \<Rightarrow> BiState \<Rightarrow> BiState outcome option" where
  "classic_loop g st =
     (if pq_fwd st = [] \<and> pq_bwd st = [] then Some (Returns st)
      else case classic_fwd_step g st of
        OutOfBounds \<Rightarrow> Some OutOfBounds
      | Returns (st1, skip1) \<Rightarrow>
          if skip1 then classic_loop g st1
          else (case classic_bwd_step g st1 of
                  OutOfBounds \<Rightarrow> Some OutOfBounds
                | Returns (st2, skip2) \<Rightarrow>
                    if skip2 then classic_loop g st2
                    else if classic_stop st2 then Some (Returns st2)
                    else classic_loop g st2))"

declare classic_loop.simps [code]

definition finish_loop :: "string \<Rightarrow> BiState outcome option \<Rightarrow> CSRQueryResult outcome option" where
  "finish_loop msg r =
     (case r of
        None \<Rightarrow> None
      | Some OutOfBounds \<Rightarrow> Some OutOfBounds
      | Some (Returns st) \<Rightarrow> map_option Returns (bi_finish msg st))"

text \<open>
  A query returns \<open>Some (Returns r)\<close> with its result record, \<open>Some OutOfBounds\<close> when it
  reads past a vector, and \<open>None\<close> when one of its loops never ends.
\<close>

definition query_classic :: "CSRGraph \<Rightarrow> u32 \<Rightarrow> u32 \<Rightarrow> CSRQueryResult outcome option" where
  "query_classic g source_edge target_edge =
     (if source_edge = target_edge then Some (Returns (self_result g source_edge))
      else if edge_meta g source_edge = None
      then Some (Returns (no_result ''Source edge not found''))
      else if edge_meta g target_edge = None
      then Some (Returns (no_result ''Target edge not found''))
      else finish_loop ''No path found''
             (classic_loop g (classic_init g source_edge target_edge)))"

subsection \<open>query\_multi\<close>

text \<open>
  The two seeding loops; a candidate without metadata is skipped.  The distances passed
  with the candidates are not read.
\<close>

definition multi_seed_fwd :: "CSRGraph \<Rightarrow> u32 \<Rightarrow> BiState \<Rightarrow> BiState" where
  "multi_seed_fwd g src st =
     (if edge_meta g src \<noteq> None
      then st\<lparr> dist_fwd := (dist_fwd st)(src \<mapsto> 0),
               parent_fwd := (parent_fwd st)(src \<mapsto> src),
               pq_fwd := pq_push (0, src) (pq_fwd st) \<rparr>
      else st)"

definition multi_seed_bwd :: "CSRGraph \<Rightarrow> u32 \<Rightarrow> BiState \<Rightarrow> BiState" where
  "multi_seed_bwd g tgt st =
     (let target_cost = get_edge_cost g tgt in
      if edge_meta g tgt \<noteq> None
      then st\<lparr> dist_bwd := (dist_bwd st)(tgt \<mapsto> target_cost),
               parent_bwd := (parent_bwd st)(tgt \<mapsto> tgt),
               pq_bwd := pq_push (target_cost, tgt) (pq_bwd st) \<rparr>
      else st)"

definition empty_state :: BiState where
  "empty_state = \<lparr> dist_fwd = Map.empty, dist_bwd = Map.empty,
                    parent_fwd = Map.empty, parent_bwd = Map.empty,
                    pq_fwd = [], pq_bwd = [], best = PInf, meeting = 0, found = False \<rparr>"

definition multi_init :: "CSRGraph \<Rightarrow> u32 list \<Rightarrow> u32 list \<Rightarrow> BiState" where
  "multi_init g source_edges target_edges =
     fold (multi_seed_bwd g) target_edges (fold (multi_seed_fwd g) source_edges empty_state)"

text \<open>The main loop of \<^verbatim>\<open>query_multi\<close> is the loop of \<^verbatim>\<open>query_classic\<close>, line by line.\<close>

definition query_multi ::
  "CSRGraph \<Rightarrow> u32 list \<Rightarrow> real list \<Rightarrow> u32 list \<Rightarrow> real list \<Rightarrow> CSRQueryResult outcome option" where
  "query_multi g source_edges source_dists target_edges target_dists =
     finish_loop ''No path found'' (classic_loop g (multi_init g source_edges target_edges))"

subsection \<open>query\_bidijkstra\<close>

text \<open>
  \<^verbatim>\<open>dist_fwd[u]\<close> on a map inserts \<open>0.0\<close> for a missing key and returns it.
\<close>

definition map_index :: "('k \<rightharpoonup> real) \<Rightarrow> 'k \<Rightarrow> real \<times> ('k \<rightharpoonup> real)" where
  "map_index m k = (case m k of None \<Rightarrow> (0, m(k \<mapsto> 0)) | Some x \<Rightarrow> (x, m))"

definition bidijkstra_init :: "CSRGraph \<Rightarrow> u32 \<Rightarrow> u32 \<Rightarrow> BiState" where
  "bidijkstra_init g source_edge target_edge =
     (let target_cost = get_edge_cost g target_edge in
      \<lparr> dist_fwd = [source_edge \<mapsto> 0],
        dist_bwd = [target_edge \<mapsto> target_cost],
        parent_fwd = [source_edge \<mapsto> source_edge],
        parent_bwd = [target_edge \<mapsto> target_edge],
        pq_fwd = pq_push (0, source_edge) [],
        pq_bwd = pq_push (target_cost, target_edge) [],
        best = PInf, meeting = 0, found = False \<rparr>)"

partial_function (option) bidijkstra_loop :: "CSRGraph \<Rightarrow> BiState \<Rightarrow> BiState outcome option" where
  "bidijkstra_loop g st =
     (case (pq_top (pq_fwd st), pq_top (pq_bwd st)) of
        (Some (df, uf), Some (db, ub)) \<Rightarrow>
          if \<not> xless (Fin (df + db)) (best st) then Some (Returns st)
          else if df \<le> db then
            (let st1 = st\<lparr> pq_fwd := pq_pop (pq_fwd st) \<rparr>;
                 (x, m) = map_index (dist_fwd st1) uf;
                 st2 = st1\<lparr> dist_fwd := m \<rparr> in
             if df > x then bidijkstra_loop g st2
             else case fwd_neighbours g uf of
               OutOfBounds \<Rightarrow> Some OutOfBounds
             | Returns scs \<Rightarrow> bidijkstra_loop g (fold (relax_fwd df uf) scs st2))
          else
            (let st1 = st\<lparr> pq_bwd := pq_pop (pq_bwd st) \<rparr>;
                 (x, m) = map_index (dist_bwd st1) ub;
                 st2 = st1\<lparr> dist_bwd := m \<rparr> in
             if db > x then bidijkstra_loop g st2
             else case bwd_neighbours g ub of
               OutOfBounds \<Rightarrow> Some OutOfBounds
             | Returns scs \<Rightarrow> bidijkstra_loop g (fold (relax_bwd db ub) scs st2))
      | _ \<Rightarrow> Some (Returns st))"

declare bidijkstra_loop.simps [code]

definition query_bidijkstra :: "CSRGraph \<Rightarrow> u32 \<Rightarrow> u32 \<Rightarrow> CSRQueryResult outcome option" where
  "query_bidijkstra g source_edge target_edge =
     (if source_edge = target_edge then Some (Returns (self_result g source_edge))
      else if edge_meta g source_edge = None
      then Some (Returns (no_result ''Source edge not found''))
      else if edge_meta g target_edge = None
      then Some (Returns (no_result ''Target edge not found''))
      else finish_loop ''No path found between source and target''
             (bidijkstra_loop g (bidijkstra_init g source_edge target_edge)))"

subsection \<open>query\_pruned\<close>

record CSRHighCell =
  hc_cell :: u64
  hc_res :: int

definition compute_high_cell :: "H3Lib \<Rightarrow> CSRGraph \<Rightarrow> u32 \<Rightarrow> u32 \<Rightarrow> CSRHighCell" where
  "compute_high_cell h g source_edge target_edge =
     (case (edge_meta g source_edge, edge_meta g target_edge) of
        (Some src, Some tgt) \<Rightarrow>
          let src_cell = to_cell src; tgt_cell = to_cell tgt in
          if src_cell = 0 \<or> tgt_cell = 0 then \<lparr> hc_cell = 0, hc_res = -1 \<rparr>
          else let lca = find_lca h src_cell tgt_cell;
                   res = (if lca \<noteq> 0 then get_resolution h lca else -1)
               in \<lparr> hc_cell = lca, hc_res = res \<rparr>
      | _ \<Rightarrow> \<lparr> hc_cell = 0, hc_res = -1 \<rparr>)"

text \<open>\<^verbatim>\<open>static_cast<int8_t>\<close> of the 64-bit \<^verbatim>\<open>lca_res\<close> keeps its low eight bits, signed.\<close>

definition to_int8 :: "int \<Rightarrow> int" where
  "to_int8 x = sint (word_of_int x :: 8 word)"

record PrunedState =
  p_dist_fwd :: "u32 \<rightharpoonup> real"
  p_dist_bwd :: "u32 \<rightharpoonup> real"
  p_parent_fwd :: "u32 \<rightharpoonup> u32"
  p_parent_bwd :: "u32 \<rightharpoonup> u32"
  p_pq_fwd :: "(real \<times> u32 \<times> int) list"
  p_pq_bwd :: "(real \<times> u32 \<times> int) list"
  p_best :: xreal
  p_meeting :: u32
  p_found :: bool
  min_arrival_fwd :: xreal
  min_arrival_bwd :: xreal

definition pruned_init :: "CSRGraph \<Rightarrow> u32 \<Rightarrow> u32 \<Rightarrow> PrunedState" where
  "pruned_init g source_edge target_edge =
     (let src_res = (case edge_meta g source_edge of Some m \<Rightarrow> to_int8 (lca_res m) | None \<Rightarrow> -1);
          tgt_res = (case edge_meta g target_edge of Some m \<Rightarrow> to_int8 (lca_res m) | None \<Rightarrow> -1);
          target_cost = get_edge_cost g target_edge in
      \<lparr> p_dist_fwd = [source_edge \<mapsto> 0],
        p_dist_bwd = [target_edge \<mapsto> target_cost],
        p_parent_fwd = [source_edge \<mapsto> source_edge],
        p_parent_bwd = [target_edge \<mapsto> target_edge],
        p_pq_fwd = pq_push (0, source_edge, src_res) [],
        p_pq_bwd = pq_push (target_cost, target_edge, tgt_res) [],
        p_best = PInf, p_meeting = 0, p_found = False,
        min_arrival_fwd = PInf, min_arrival_bwd = PInf \<rparr>)"

definition pruned_relax_fwd :: "real \<Rightarrow> u32 \<Rightarrow> CSRShortcut \<Rightarrow> PrunedState \<Rightarrow> PrunedState" where
  "pruned_relax_fwd d u sc st =
     (if sc_inside sc \<noteq> 1 then st
      else let nd = d + sc_cost sc in
        if (case p_dist_fwd st (sc_to sc) of None \<Rightarrow> True | Some x \<Rightarrow> nd < x)
        then st\<lparr> p_dist_fwd := (p_dist_fwd st)(sc_to sc \<mapsto> nd),
                 p_parent_fwd := (p_parent_fwd st)(sc_to sc \<mapsto> u),
                 p_pq_fwd := pq_push (nd, sc_to sc, get_res sc) (p_pq_fwd st) \<rparr>
        else st)"

definition pruned_relax_bwd ::
  "int \<Rightarrow> real \<Rightarrow> u32 \<Rightarrow> int \<Rightarrow> CSRShortcut \<Rightarrow> PrunedState \<Rightarrow> PrunedState" where
  "pruned_relax_bwd high_res d u u_res sc st =
     (let check = (u_res \<ge> high_res);
          allowed = (if sc_inside sc = -1 \<and> check then True
                     else if sc_inside sc = 0 \<and> u_res \<le> high_res then True
                     else if sc_inside sc = -2 \<and> \<not> check then True
                     else False) in
      if \<not> allowed then st
      else let nd = d + sc_cost sc in
        if (case p_dist_bwd st (sc_from sc) of None \<Rightarrow> True | Some x \<Rightarrow> nd < x)
        then st\<lparr> p_dist_bwd := (p_dist_bwd st)(sc_from sc \<mapsto> nd),
                 p_parent_bwd := (p_parent_bwd st)(sc_from sc \<mapsto> u),
                 p_pq_bwd := pq_push (nd, sc_from sc, get_res sc) (p_pq_bwd st) \<rparr>
        else st)"

definition pruned_fwd_step ::
  "CSRGraph \<Rightarrow> int \<Rightarrow> PrunedState \<Rightarrow> (PrunedState \<times> bool) outcome" where
  "pruned_fwd_step g high_res st =
     (case pq_top (p_pq_fwd st) of
        None \<Rightarrow> Returns (st, False)
      | Some (d, u, u_res) \<Rightarrow>
          let st1 = st\<lparr> p_pq_fwd := pq_pop (p_pq_fwd st) \<rparr>;
              st2 = (case p_dist_bwd st1 u of
                       None \<Rightarrow> st1
                     | Some b \<Rightarrow>
                         let (x, m) = map_index (p_dist_fwd st1) u;
                             st1a = st1\<lparr> p_dist_fwd := m,
                                         min_arrival_fwd := xmin (Fin x) (min_arrival_fwd st1),
                                         min_arrival_bwd := xmin (Fin b) (min_arrival_bwd st1) \<rparr> in
                         if xless (Fin (d + b)) (p_best st1a)
                         then st1a\<lparr> p_best := Fin (d + b), p_meeting := u, p_found := True \<rparr>
                         else st1a) in
          if (case p_dist_fwd st2 u of None \<Rightarrow> False | Some x \<Rightarrow> d > x) then Returns (st2, True)
          else if \<not> xless (Fin d) (p_best st2) then Returns (st2, True)
          else if u_res < high_res then
            (let (x, m) = map_index (p_dist_fwd st2) u in
             Returns (st2\<lparr> p_dist_fwd := m,
                           min_arrival_fwd := xmin (Fin x) (min_arrival_fwd st2) \<rparr>, True))
          else
            (let st3 = (if u_res = high_res
                        then let (x, m) = map_index (p_dist_fwd st2) u in
                             st2\<lparr> p_dist_fwd := m,
                                  min_arrival_fwd := xmin (Fin x) (min_arrival_fwd st2) \<rparr>
                        else st2) in
             case fwd_neighbours g u of
               OutOfBounds \<Rightarrow> OutOfBounds
             | Returns scs \<Rightarrow> Returns (fold (pruned_relax_fwd d u) scs st3, False)))"

definition pruned_bwd_step ::
  "CSRGraph \<Rightarrow> int \<Rightarrow> PrunedState \<Rightarrow> (PrunedState \<times> bool) outcome" where
  "pruned_bwd_step g high_res st =
     (case pq_top (p_pq_bwd st) of
        None \<Rightarrow> Returns (st, False)
      | Some (d, u, u_res) \<Rightarrow>
          let st1 = st\<lparr> p_pq_bwd := pq_pop (p_pq_bwd st) \<rparr>;
              st2 = (case p_dist_fwd st1 u of
                       None \<Rightarrow> st1
                     | Some f \<Rightarrow>
                         let (x, m) = map_index (p_dist_bwd st1) u;
                             st1a = st1\<lparr> p_dist_bwd := m,
                                         min_arrival_fwd := xmin (Fin f) (min_arrival_fwd st1),
                                         min_arrival_bwd := xmin (Fin x) (min_arrival_bwd st1) \<rparr> in
                         if xless (Fin (f + d)) (p_best st1a)
                         then st1a\<lparr> p_best := Fin (f + d), p_meeting := u, p_found := True \<rparr>
                         else st1a) in
          if (case p_dist_bwd st2 u of None \<Rightarrow> False | Some x \<Rightarrow> d > x) then Returns (st2, True)
          else if \<not> xless (Fin d) (p_best st2) then Returns (st2, True)
          else
            (let check = (u_res \<ge> high_res);
                 st3 = (if u_res = high_res \<or> \<not> check
                        then let (x, m) = map_index (p_dist_bwd st2) u in
                             st2\<lparr> p_dist_bwd := m,
                                  min_arrival_bwd := xmin (Fin x) (min_arrival_bwd st2) \<rparr>
                        else st2) in
             case bwd_neighbours g u of
               OutOfBounds \<Rightarrow> OutOfBounds
             | Returns scs \<Rightarrow>
                 Returns (fold (pruned_relax_bwd high_res d u u_res) scs st3, False)))"

text \<open>The early-termination test at the end of the loop body; \<open>True\<close> is \<^verbatim>\<open>break\<close>.\<close>

definition pruned_stop :: "PrunedState \<Rightarrow> bool" where
  "pruned_stop st =
     (if p_best st \<noteq> PInf then
        (let bound_fwd = (case pq_top (p_pq_fwd st) of
                            None \<Rightarrow> min_arrival_fwd st
                          | Some (d, e) \<Rightarrow> xmin (min_arrival_fwd st) (Fin d));
             bound_bwd = (case pq_top (p_pq_bwd st) of
                            None \<Rightarrow> min_arrival_bwd st
                          | Some (d, e) \<Rightarrow> xmin (min_arrival_bwd st) (Fin d));
             fwd_good = (case pq_top (p_pq_fwd st) of
                           None \<Rightarrow> False
                         | Some (d, e) \<Rightarrow> xless (xplus d bound_bwd) (p_best st));
             bwd_good = (case pq_top (p_pq_bwd st) of
                           None \<Rightarrow> False
                         | Some (d, e) \<Rightarrow> xless (xplus d bound_fwd) (p_best st)) in
         \<not> fwd_good \<and> \<not> bwd_good)
      else False)"

partial_function (option) pruned_loop ::
  "CSRGraph \<Rightarrow> int \<Rightarrow> PrunedState \<Rightarrow> PrunedState outcome option" where
  "pruned_loop g high_res st =
     (if p_pq_fwd st = [] \<and> p_pq_bwd st = [] then Some (Returns st)
      else case pruned_fwd_step g high_res st of
        OutOfBounds \<Rightarrow> Some OutOfBounds
      | Returns (st1, skip1) \<Rightarrow>
          if skip1 then pruned_loop g high_res st1
          else (case pruned_bwd_step g high_res st1 of
                  OutOfBounds \<Rightarrow> Some OutOfBounds
                | Returns (st2, skip2) \<Rightarrow>
                    if skip2 then pruned_loop g high_res st2
                    else if pruned_stop st2 then Some (Returns st2)
                    else pruned_loop g high_res st2))"

declare pruned_loop.simps [code]

definition pruned_finish :: "PrunedState \<Rightarrow> CSRQueryResult option" where
  "pruned_finish st =
     (if \<not> p_found st then Some (no_result ''No path found'')
      else case reconstruct (p_parent_fwd st) (p_parent_bwd st) (p_meeting st) of
        None \<Rightarrow> None
      | Some p \<Rightarrow> Some \<lparr> distance = the_fin (p_best st), path = p, reachable = True, error = [] \<rparr>)"

definition query_pruned :: "H3Lib \<Rightarrow> CSRGraph \<Rightarrow> u32 \<Rightarrow> u32 \<Rightarrow> CSRQueryResult outcome option" where
  "query_pruned h g source_edge target_edge =
     (if source_edge = target_edge then Some (Returns (self_result g source_edge))
      else if edge_meta g source_edge = None
      then Some (Returns (no_result ''Source edge not found''))
      else if edge_meta g target_edge = None
      then Some (Returns (no_result ''Target edge not found''))
      else let high = compute_high_cell h g source_edge target_edge in
        case pruned_loop g (hc_res high) (pruned_init g source_edge target_edge) of
          None \<Rightarrow> None
        | Some OutOfBounds \<Rightarrow> Some OutOfBounds
        | Some (Returns st) \<Rightarrow> map_option Returns (pruned_finish st))"

subsection \<open>query\_dijkstra\<close>

record DijkstraState =
  d_dist :: "u32 \<rightharpoonup> real"
  d_parent :: "u32 \<rightharpoonup> u32"
  d_pq :: "(real \<times> u32) list"
  d_best_dist :: xreal
  d_found :: bool

definition dijkstra_init :: "u32 \<Rightarrow> DijkstraState" where
  "dijkstra_init source_edge =
     \<lparr> d_dist = [source_edge \<mapsto> 0], d_parent = [source_edge \<mapsto> source_edge],
       d_pq = pq_push (0, source_edge) [], d_best_dist = PInf, d_found = False \<rparr>"

definition dijkstra_relax :: "real \<Rightarrow> u32 \<Rightarrow> CSRShortcut \<Rightarrow> DijkstraState \<Rightarrow> DijkstraState" where
  "dijkstra_relax d u sc st =
     (let nd = d + sc_cost sc in
      if (case d_dist st (sc_to sc) of None \<Rightarrow> True | Some x \<Rightarrow> nd < x)
      then st\<lparr> d_dist := (d_dist st)(sc_to sc \<mapsto> nd),
               d_parent := (d_parent st)(sc_to sc \<mapsto> u),
               d_pq := pq_push (nd, sc_to sc) (d_pq st) \<rparr>
      else st)"

partial_function (option) dijkstra_loop ::
  "CSRGraph \<Rightarrow> u32 \<Rightarrow> DijkstraState \<Rightarrow> DijkstraState outcome option" where
  "dijkstra_loop g target_edge st =
     (case pq_top (d_pq st) of
        None \<Rightarrow> Some (Returns st)
      | Some (d, u) \<Rightarrow>
          let st1 = st\<lparr> d_pq := pq_pop (d_pq st) \<rparr>;
              (x, m) = map_index (d_dist st1) u;
              st2 = st1\<lparr> d_dist := m \<rparr> in
          if d > x then dijkstra_loop g target_edge st2
          else if u = target_edge
          then Some (Returns (st2\<lparr> d_best_dist := Fin d, d_found := True \<rparr>))
          else case fwd_neighbours g u of
            OutOfBounds \<Rightarrow> Some OutOfBounds
          | Returns scs \<Rightarrow> dijkstra_loop g target_edge (fold (dijkstra_relax d u) scs st2))"

declare dijkstra_loop.simps [code]

text \<open>
  \<^verbatim>\<open>while (curr != source_edge) { path.push_back(curr); curr = parent[curr]; }\<close>, where
  \<^verbatim>\<open>parent[curr]\<close> yields 0 for a missing key.
\<close>

partial_function (option) dijkstra_trace ::
  "(u32 \<rightharpoonup> u32) \<Rightarrow> u32 \<Rightarrow> u32 \<Rightarrow> u32 list \<Rightarrow> u32 list option" where
  "dijkstra_trace parent source_edge cur acc =
     (if cur \<noteq> source_edge
      then dijkstra_trace parent source_edge
             (case parent cur of None \<Rightarrow> 0 | Some p \<Rightarrow> p) (acc @ [cur])
      else Some acc)"

declare dijkstra_trace.simps [code]

definition dijkstra_finish ::
  "CSRGraph \<Rightarrow> u32 \<Rightarrow> u32 \<Rightarrow> DijkstraState \<Rightarrow> CSRQueryResult option" where
  "dijkstra_finish g source_edge target_edge st =
     (if \<not> d_found st then Some (no_result ''Path not found'')
      else case dijkstra_trace (d_parent st) source_edge target_edge [] of
        None \<Rightarrow> None
      | Some acc \<Rightarrow>
          Some \<lparr> distance = the_fin (d_best_dist st) + get_edge_cost g target_edge,
                 path = rev (acc @ [source_edge]), reachable = True, error = [] \<rparr>)"

definition query_dijkstra :: "CSRGraph \<Rightarrow> u32 \<Rightarrow> u32 \<Rightarrow> CSRQueryResult outcome option" where
  "query_dijkstra g source_edge target_edge =
     (if source_edge = target_edge then Some (Returns (self_result g source_edge))
      else if edge_meta g source_edge = None
      then Some (Returns (no_result ''Source edge not found''))
      else if edge_meta g target_edge = None
      then Some (Returns (no_result ''Target edge not found''))
      else case dijkstra_loop g target_edge (dijkstra_init source_edge) of
          None \<Rightarrow> None
        | Some OutOfBounds \<Rightarrow> Some OutOfBounds
        | Some (Returns st) \<Rightarrow>
            map_option Returns (dijkstra_finish g source_edge target_edge st))"

subsection \<open>query\_unidirectional (csr\_graph.cpp)\<close>

text \<open>
  The search state is the 64-bit word \<^verbatim>\<open>(edge << 4) | phase\<close>.  \<open>uni_phase_step\<close> is the
  pruning of one shortcut: the next phase when the shortcut may be used.
\<close>

definition uni_pack :: "u32 \<Rightarrow> int \<Rightarrow> u64" where
  "uni_pack e phase = push_bit 4 (ucast e) OR word_of_int phase"

definition uni_edge :: "u64 \<Rightarrow> u32" where
  "uni_edge s = ucast (drop_bit 4 s)"

definition uni_phase :: "u64 \<Rightarrow> int" where
  "uni_phase s = uint (s AND 15)"

definition uni_phase_step :: "int \<Rightarrow> int \<Rightarrow> CSRShortcut \<Rightarrow> int option" where
  "uni_phase_step high_res phase sc =
     (if phase = 0 \<or> phase = 1 then
        (if get_res sc > high_res \<and> sc_inside sc = 1 then Some 1
         else if get_res sc \<le> high_res \<and> sc_inside sc = 1 then Some 2
         else if sc_inside sc \<noteq> 1 then Some 2
         else None)
      else if phase = 2 then (if sc_inside sc \<noteq> 1 then Some 3 else None)
      else if phase = 3 then (if sc_inside sc = -1 then Some 3 else None)
      else None)"

record UniState =
  u_dist_map :: "u64 \<rightharpoonup> real"
  u_parent_map :: "u64 \<rightharpoonup> u64"
  u_pq :: "(real \<times> u64) list"
  u_best_dist :: xreal
  u_best_end_state :: u64
  u_found :: bool

definition uni_init :: "u32 \<Rightarrow> UniState" where
  "uni_init source_edge =
     (let start_state = uni_pack source_edge 0 in
      \<lparr> u_dist_map = [start_state \<mapsto> 0], u_parent_map = [start_state \<mapsto> start_state],
        u_pq = pq_push (0, start_state) [], u_best_dist = PInf,
        u_best_end_state = 0, u_found = False \<rparr>)"

definition uni_relax :: "int \<Rightarrow> real \<Rightarrow> u64 \<Rightarrow> CSRShortcut \<Rightarrow> UniState \<Rightarrow> UniState" where
  "uni_relax high_res d curr_packed sc st =
     (case uni_phase_step high_res (uni_phase curr_packed) sc of
        None \<Rightarrow> st
      | Some next_phase \<Rightarrow>
          let new_dist = d + sc_cost sc;
              next_state = uni_pack (sc_to sc) next_phase in
          if (case u_dist_map st next_state of None \<Rightarrow> True | Some x \<Rightarrow> new_dist < x)
          then st\<lparr> u_dist_map := (u_dist_map st)(next_state \<mapsto> new_dist),
                   u_parent_map := (u_parent_map st)(next_state \<mapsto> curr_packed),
                   u_pq := pq_push (new_dist, next_state) (u_pq st) \<rparr>
          else st)"

partial_function (option) uni_loop ::
  "CSRGraph \<Rightarrow> int \<Rightarrow> u32 \<Rightarrow> UniState \<Rightarrow> UniState outcome option" where
  "uni_loop g high_res target_edge st =
     (case pq_top (u_pq st) of
        None \<Rightarrow> Some (Returns st)
      | Some (d, curr_packed) \<Rightarrow>
          let st1 = st\<lparr> u_pq := pq_pop (u_pq st) \<rparr>;
              (x, m) = map_index (u_dist_map st1) curr_packed;
              st2 = st1\<lparr> u_dist_map := m \<rparr> in
          if d > x then uni_loop g high_res target_edge st2
          else if \<not> xless (Fin d) (u_best_dist st2) then uni_loop g high_res target_edge st2
          else if uni_edge curr_packed = target_edge
          then Some (Returns (st2\<lparr> u_best_dist := Fin (d + get_edge_cost g target_edge),
                                    u_best_end_state := curr_packed, u_found := True \<rparr>))
          else case fwd_neighbours g (uni_edge curr_packed) of
            OutOfBounds \<Rightarrow> Some OutOfBounds
          | Returns scs \<Rightarrow>
              uni_loop g high_res target_edge (fold (uni_relax high_res d curr_packed) scs st2))"

declare uni_loop.simps [code]

partial_function (option) uni_trace :: "(u64 \<rightharpoonup> u64) \<Rightarrow> u64 \<Rightarrow> u32 list \<Rightarrow> u32 list option" where
  "uni_trace parent cur acc =
     (let acc1 = acc @ [uni_edge cur] in
      case parent cur of
        None \<Rightarrow> Some acc1
      | Some p \<Rightarrow> if p = cur then Some acc1 else uni_trace parent p acc1)"

declare uni_trace.simps [code]

definition uni_finish :: "UniState \<Rightarrow> CSRQueryResult option" where
  "uni_finish st =
     (if \<not> u_found st then Some (no_result ''No path found'')
      else case uni_trace (u_parent_map st) (u_best_end_state st) [] of
        None \<Rightarrow> None
      | Some acc \<Rightarrow>
          Some \<lparr> distance = the_fin (u_best_dist st), path = rev acc,
                 reachable = True, error = [] \<rparr>)"

definition query_unidirectional ::
  "H3Lib \<Rightarrow> CSRGraph \<Rightarrow> u32 \<Rightarrow> u32 \<Rightarrow> CSRQueryResult outcome option" where
  "query_unidirectional h g source_edge target_edge =
     (if source_edge = target_edge then Some (Returns (self_result g source_edge))
      else if \<not> is_valid_edge g source_edge
      then Some (Returns (no_result ''Source edge not found''))
      else if \<not> is_valid_edge g target_edge
      then Some (Returns (no_result ''Target edge not found''))
      else let high = compute_high_cell h g source_edge target_edge in
        case uni_loop g (hc_res high) target_edge (uni_init source_edge) of
          None \<Rightarrow> None
        | Some OutOfBounds \<Rightarrow> Some OutOfBounds
        | Some (Returns st) \<Rightarrow> map_option Returns (uni_finish st))"

subsection \<open>query\_unidirectional (query\_unidirectional\_impl.cpp)\<close>

text \<open>
  The second definition of \<^verbatim>\<open>CSRGraph::query_unidirectional\<close>.  Its state word is
  \<^verbatim>\<open>(edge << 4) | (counter << 1) | used_minus1\<close>.  \<open>uni_impl_step\<close> is its pruning of one
  shortcut: the next \<open>(counter, used_minus1)\<close> when \<^verbatim>\<open>can_use\<close> is set.
\<close>

definition uni_impl_step ::
  "int \<Rightarrow> int \<Rightarrow> u32 \<Rightarrow> bool \<Rightarrow> CSRShortcut \<Rightarrow> (u32 \<times> bool) option" where
  "uni_impl_step u_res high_res counter used_minus1 sc =
     (if u_res > high_res then
        (if sc_inside sc = 1 then Some (counter, used_minus1)
         else if sc_inside sc = -1 then
           (if \<not> used_minus1 then Some (counter, True) else None)
         else None)
      else
        (if sc_inside sc = -1 then Some (counter, used_minus1)
         else if sc_inside sc = 0 \<or> sc_inside sc = -2 then
           (if counter < 2 then Some (counter + 1, used_minus1) else None)
         else None))"

definition impl_pack :: "u32 \<Rightarrow> u32 \<Rightarrow> bool \<Rightarrow> u64" where
  "impl_pack e counter used_minus1 =
     push_bit 4 (ucast e) OR ucast (push_bit 1 counter) OR (if used_minus1 then 1 else 0)"

definition impl_counter :: "u64 \<Rightarrow> u32" where
  "impl_counter s = ucast (drop_bit 1 s AND 7)"

definition impl_used_minus1 :: "u64 \<Rightarrow> bool" where
  "impl_used_minus1 s \<longleftrightarrow> s AND 1 \<noteq> 0"

text \<open>The loop \<^verbatim>\<open>for (i = start; i < end; ++i)\<close> reads \<^verbatim>\<open>shortcuts_[i]\<close> unchecked.\<close>

definition fwd_neighbours_unchecked :: "CSRGraph \<Rightarrow> u32 \<Rightarrow> CSRShortcut list outcome" where
  "fwd_neighbours_unchecked g u =
     (case get_fwd_range g u of
        OutOfBounds \<Rightarrow> OutOfBounds
      | Returns (start, stop) \<Rightarrow>
          if unat start < unat stop \<and> length (shortcuts g) < unat stop then OutOfBounds
          else Returns (map (\<lambda>i. shortcuts g ! i) [unat start ..< unat stop]))"

definition impl_relax ::
  "int \<Rightarrow> int \<Rightarrow> real \<Rightarrow> u64 \<Rightarrow> CSRShortcut \<Rightarrow> UniState \<Rightarrow> UniState" where
  "impl_relax u_res high_res d curr_packed sc st =
     (case uni_impl_step u_res high_res (impl_counter curr_packed)
             (impl_used_minus1 curr_packed) sc of
        None \<Rightarrow> st
      | Some (next_counter, next_used_minus1) \<Rightarrow>
          let new_dist = d + sc_cost sc;
              next_state = impl_pack (sc_to sc) next_counter next_used_minus1 in
          if (case u_dist_map st next_state of None \<Rightarrow> True | Some x \<Rightarrow> new_dist < x)
          then st\<lparr> u_dist_map := (u_dist_map st)(next_state \<mapsto> new_dist),
                   u_parent_map := (u_parent_map st)(next_state \<mapsto> curr_packed),
                   u_pq := pq_push (new_dist, next_state) (u_pq st) \<rparr>
          else st)"

partial_function (option) impl_loop ::
  "CSRGraph \<Rightarrow> int \<Rightarrow> u32 \<Rightarrow> UniState \<Rightarrow> UniState outcome option" where
  "impl_loop g high_res target_edge st =
     (case pq_top (u_pq st) of
        None \<Rightarrow> Some (Returns st)
      | Some (d, curr_packed) \<Rightarrow>
          let st1 = st\<lparr> u_pq := pq_pop (u_pq st) \<rparr>;
              (x, m) = map_index (u_dist_map st1) curr_packed;
              st2 = st1\<lparr> u_dist_map := m \<rparr> in
          if d > x then impl_loop g high_res target_edge st2
          else if \<not> xless (Fin d) (u_best_dist st2) then impl_loop g high_res target_edge st2
          else if uni_edge curr_packed = target_edge
          then impl_loop g high_res target_edge
                 (if xless (Fin d) (u_best_dist st2)
                  then st2\<lparr> u_best_dist := Fin d, u_best_end_state := curr_packed,
                            u_found := True \<rparr>
                  else st2)
          else let u_res = (case edge_meta g (uni_edge curr_packed) of
                              Some meta \<Rightarrow> sint (word_of_int (lca_res meta) :: 32 word)
                            | None \<Rightarrow> -1) in
            case fwd_neighbours_unchecked g (uni_edge curr_packed) of
              OutOfBounds \<Rightarrow> Some OutOfBounds
            | Returns scs \<Rightarrow>
                impl_loop g high_res target_edge
                  (fold (impl_relax u_res high_res d curr_packed) scs st2))"

declare impl_loop.simps [code]

definition query_unidirectional_impl ::
  "H3Lib \<Rightarrow> CSRGraph \<Rightarrow> u32 \<Rightarrow> u32 \<Rightarrow> CSRQueryResult outcome option" where
  "query_unidirectional_impl h g source_edge target_edge =
     (if source_edge = target_edge then Some (Returns (self_result g source_edge))
      else if \<not> is_valid_edge g source_edge
      then Some (Returns (no_result ''Source edge not found''))
      else if \<not> is_valid_edge g target_edge
      then Some (Returns (no_result ''Target edge not found''))
      else let high = compute_high_cell h g source_edge target_edge in
        case impl_loop g (hc_res high) target_edge
               (uni_init source_edge) of
          None \<Rightarrow> None
        | Some OutOfBounds \<Rightarrow> Some OutOfBounds
        | Some (Returns st) \<Rightarrow> map_option Returns (uni_finish st))"

subsection \<open>ShortcutGraph::query\_unidirectional (shortcut\_graph.cpp)\<close>

text \<open>
  The pruning of one shortcut in the hash-map engine's unidirectional search, with
  \<^verbatim>\<open>MAX_USES = 2\<close>: the next \<open>(counter, used_minus1)\<close> when \<^verbatim>\<open>allowed\<close> is set.
\<close>

definition uni_legacy_step ::
  "int \<Rightarrow> int \<Rightarrow> int \<Rightarrow> bool \<Rightarrow> int \<Rightarrow> (int \<times> bool) option" where
  "uni_legacy_step u_res high_res counter used_minus1 inside =
     (if u_res > high_res then
        (if inside = 1 \<and> \<not> used_minus1 then Some (counter, used_minus1)
         else if inside = -1 \<and> used_minus1 then Some (counter, used_minus1)
         else None)
      else
        (if used_minus1 then
           (if inside = -1 then Some (counter, used_minus1) else None)
         else
           (if (inside = 0 \<or> inside = -2) \<and> counter < 2 then Some (counter + 1, True)
            else if inside = -1 then Some (counter, True)
            else None)))"

section \<open>Loader (CSRGraph::load\_shortcuts)\<close>

text \<open>
  The rows read from the Parquet source, as \<^verbatim>\<open>load_parquet_file_csr\<close> appends them to
  \<^verbatim>\<open>temp_list\<close>.  \<open>t_inside\<close> is an \<^verbatim>\<open>int8_t\<close>.
\<close>

record TempShortcut =
  t_from :: u32
  t_to :: u32
  t_cost :: real
  t_via_edge :: u32
  t_cell :: u64
  t_inside :: int

text \<open>
  The copy into a \<^verbatim>\<open>CSRShortcut\<close>: \<^verbatim>\<open>via_edge\<close> keeps its low 30 bits and \<^verbatim>\<open>inside\<close> its
  low two bits, read as signed.
\<close>

definition to_csr :: "TempShortcut \<Rightarrow> CSRShortcut" where
  "to_csr t = \<lparr> sc_cell = t_cell t, sc_cost = t_cost t, sc_from = t_from t, sc_to = t_to t,
                sc_via_edge = take_bit 30 (t_via_edge t),
                sc_inside = signed_take_bit 1 (t_inside t) \<rparr>"

text \<open>A loop whose body may leave the vectors: it stops at the first such step.\<close>

fun ofold :: "('a \<Rightarrow> 's \<Rightarrow> 's outcome) \<Rightarrow> 'a list \<Rightarrow> 's \<Rightarrow> 's outcome" where
  "ofold f [] s = Returns s"
| "ofold f (x # xs) s = (case f x s of OutOfBounds \<Rightarrow> OutOfBounds | Returns s1 \<Rightarrow> ofold f xs s1)"

text \<open>\<^verbatim>\<open>counts[key]++\<close>\<close>

definition count_step :: "u32 \<Rightarrow> u32 list \<Rightarrow> u32 list outcome" where
  "count_step key counts =
     (if unat key < length counts
      then Returns (counts[unat key := counts ! unat key + 1])
      else OutOfBounds)"

text \<open>\<^verbatim>\<open>offsets[i] = offset; offset += counts[i];\<close>\<close>

definition offset_step :: "u32 list \<Rightarrow> nat \<Rightarrow> u32 list \<times> u32 \<Rightarrow> (u32 list \<times> u32) outcome" where
  "offset_step counts i st =
     (case st of (offsets, offset) \<Rightarrow>
        if i < length offsets \<and> i < length counts
        then Returns (offsets[i := offset], offset + counts ! i)
        else OutOfBounds)"

text \<open>
  The prefix-sum loop \<^verbatim>\<open>for (size_t i = 0; i <= max_edge_id_; ++i)\<close> over a vector of
  \<^verbatim>\<open>max_edge_id_ + 2\<close> zeros, and the store of the total at \<^verbatim>\<open>max_edge_id_ + 1\<close>; both
  sums are 32-bit.
\<close>

definition build_offsets :: "u32 \<Rightarrow> u32 list \<Rightarrow> u32 list outcome" where
  "build_offsets m counts =
     (case ofold (offset_step counts) [0 ..< Suc (unat m)] (replicate (unat (m + 2)) 0, 0) of
        OutOfBounds \<Rightarrow> OutOfBounds
      | Returns (offsets, offset) \<Rightarrow>
          if unat (m + 1) < length offsets
          then Returns (offsets[unat (m + 1) := offset])
          else OutOfBounds)"

text \<open>
  \<^verbatim>\<open>bwd_indices_[current_pos[target]++] = i\<close> for the shortcut at index \<open>i\<close> with
  target \<open>target\<close>.
\<close>

definition fill_step ::
  "nat \<times> u32 \<Rightarrow> u32 list \<times> u32 list \<Rightarrow> (u32 list \<times> u32 list) outcome" where
  "fill_step it st =
     (case (it, st) of ((i, target), (current_pos, indices)) \<Rightarrow>
        if unat target < length current_pos
        then let pos = current_pos ! unat target in
          if unat pos < length indices
          then Returns (current_pos[unat target := pos + 1], indices[unat pos := word_of_nat i])
          else OutOfBounds
        else OutOfBounds)"

text \<open>\<^verbatim>\<open>v.resize(n)\<close>: cut, or filled up with zeros.\<close>

definition resize :: "u32 list \<Rightarrow> nat \<Rightarrow> u32 list" where
  "resize v n = take n v @ replicate (n - length v) 0"

text \<open>
  \<^verbatim>\<open>load_shortcuts\<close> on the rows read, as a function of the store it is called on.  No
  rows is \<^verbatim>\<open>return false\<close>.  \<^verbatim>\<open>std::sort\<close> by \<^verbatim>\<open>from\<close> leaves the order of rows with the
  same source open; the model sorts stably.  The new shortcuts are appended to
  \<^verbatim>\<open>shortcuts_\<close>, which the function does not clear.
\<close>

definition load_shortcuts :: "TempShortcut list \<Rightarrow> CSRGraph \<Rightarrow> (bool \<times> CSRGraph) outcome" where
  "load_shortcuts temp_list g =
     (if temp_list = [] then Returns (False, g)
      else
        let m = fold (\<lambda>sc m. max (max m (t_from sc)) (t_to sc)) temp_list 0;
            sorted_list = sort_key t_from temp_list in
        case ofold count_step (map t_from sorted_list) (replicate (unat (m + 1)) 0) of
          OutOfBounds \<Rightarrow> OutOfBounds
        | Returns counts \<Rightarrow>
        (case build_offsets m counts of
          OutOfBounds \<Rightarrow> OutOfBounds
        | Returns fwd \<Rightarrow>
        (let scs = shortcuts g @ map to_csr sorted_list in
         case ofold count_step (map sc_to scs) (replicate (length counts) 0) of
          OutOfBounds \<Rightarrow> OutOfBounds
        | Returns bcounts \<Rightarrow>
        (case build_offsets m bcounts of
          OutOfBounds \<Rightarrow> OutOfBounds
        | Returns bwd \<Rightarrow>
            if bwd = [] then OutOfBounds
            else
              (case ofold fill_step (zip [0 ..< length scs] (map sc_to scs))
                      (butlast bwd, resize (bwd_indices g) (length scs)) of
                 OutOfBounds \<Rightarrow> OutOfBounds
               | Returns (current_pos, indices) \<Rightarrow>
                   Returns (True, g\<lparr> shortcuts := scs, fwd_offsets := fwd, bwd_offsets := bwd,
                                    bwd_indices := indices, max_edge_id := m \<rparr>))))))"

text \<open>A default-constructed \<^verbatim>\<open>CSRGraph\<close>.\<close>

definition empty_graph :: CSRGraph where
  "empty_graph = \<lparr> shortcuts = [], fwd_offsets = [], bwd_offsets = [], bwd_indices = [],
                    max_edge_id = 0, edge_meta = Map.empty \<rparr>"

section \<open>The CSR invariants\<close>

text \<open>
  The three invariants of the store, over the arrays as the loader leaves them.  With \<open>M\<close>
  the largest edge id, both offset arrays have \<open>M + 2\<close> entries; every shortcut lies in the
  forward range of its source and every index of the forward range of \<open>u\<close> holds a
  shortcut with source \<open>u\<close>; the shortcuts that \<open>bwd_indices\<close> names over the backward
  range of \<open>v\<close> are, as a multiset, the shortcuts with target \<open>v\<close>; both offset arrays are
  non-decreasing and end with the number of shortcuts.
\<close>

definition csr_consistent :: "CSRGraph \<Rightarrow> bool" where
  "csr_consistent g \<longleftrightarrow>
     (let S = shortcuts g; fo = map unat (fwd_offsets g); bo = map unat (bwd_offsets g);
          M = unat (max_edge_id g) in
      length fo = M + 2 \<and> length bo = M + 2 \<and> length (bwd_indices g) = length S \<and>
      (\<forall>i < length S. unat (sc_from (S ! i)) \<le> M \<and>
           fo ! unat (sc_from (S ! i)) \<le> i \<and> i < fo ! (unat (sc_from (S ! i)) + 1)) \<and>
      (\<forall>u \<le> M. \<forall>i. fo ! u \<le> i \<and> i < fo ! (u + 1) \<longrightarrow>
           i < length S \<and> unat (sc_from (S ! i)) = u) \<and>
      (\<forall>v \<le> M. mset (map (\<lambda>k. S ! unat (bwd_indices g ! k)) [bo ! v ..< bo ! (v + 1)])
                = mset (filter (\<lambda>s. unat (sc_to s) = v) S)) \<and>
      sorted fo \<and> sorted bo \<and> last fo = length S \<and> last bo = length S)"


text \<open>
  Auxiliary counts over a list of keys \<open>ts\<close>: the occurrences of \<open>v\<close> among the first \<open>k\<close>
  keys, the keys smaller than \<open>v\<close>, and the positions below \<open>k\<close> that hold \<open>v\<close>, in
  increasing order.
\<close>

definition cnt :: "nat list \<Rightarrow> nat \<Rightarrow> nat \<Rightarrow> nat" where
  "cnt ts k v = length (filter (\<lambda>x. x = v) (take k ts))"

definition below :: "nat list \<Rightarrow> nat \<Rightarrow> nat" where
  "below ts v = length (filter (\<lambda>x. x < v) ts)"

definition hits :: "nat list \<Rightarrow> nat \<Rightarrow> nat \<Rightarrow> nat list" where
  "hits ts k v = filter (\<lambda>j. ts ! j = v) [0 ..< k]"

text \<open>
  The state of the loop that fills \<open>bwd_indices\<close>, after the first \<open>k\<close> shortcuts: the cursor
  of \<open>v\<close> stands behind the entries written for \<open>v\<close>, which are the positions of the
  shortcuts with target \<open>v\<close> seen so far.
\<close>

definition fill_inv :: "nat \<Rightarrow> nat list \<Rightarrow> nat \<Rightarrow> u32 list \<times> u32 list \<Rightarrow> bool" where
  "fill_inv M ts k st \<longleftrightarrow>
     (case st of (pos, idx) \<Rightarrow>
        length pos = M + 1 \<and> length idx = length ts \<and>
        (\<forall>v \<le> M. pos ! v = word_of_nat (below ts v + cnt ts k v)) \<and>
        (\<forall>v \<le> M. \<forall>q < cnt ts k v. idx ! (below ts v + q) = word_of_nat (hits ts k v ! q)))"
section \<open>Paths of shortcuts and their cost\<close>

text \<open>
  The shortcuts a forward scan of \<open>u\<close> visits, and those a backward scan visits; nothing
  when the scan leaves the offset arrays.
\<close>

definition scanned_fwd :: "CSRGraph \<Rightarrow> u32 \<Rightarrow> CSRShortcut set" where
  "scanned_fwd g u = (case fwd_neighbours g u of Returns scs \<Rightarrow> set scs | OutOfBounds \<Rightarrow> {})"

definition scanned_bwd :: "CSRGraph \<Rightarrow> u32 \<Rightarrow> CSRShortcut set" where
  "scanned_bwd g u = (case bwd_neighbours g u of Returns scs \<Rightarrow> set scs | OutOfBounds \<Rightarrow> {})"

text \<open>
  \<open>link g x y c\<close>: a shortcut of cost \<open>c\<close> leads from \<open>x\<close> to \<open>y\<close>, found either by the
  forward scan of \<open>x\<close> or by the backward scan of \<open>y\<close>.  \<open>path_links lnk p cs\<close>: \<open>cs\<close> are
  the costs of links between the consecutive entries of the non-empty path \<open>p\<close>.
\<close>

definition link_fwd :: "CSRGraph \<Rightarrow> u32 \<Rightarrow> u32 \<Rightarrow> real \<Rightarrow> bool" where
  "link_fwd g x y c \<longleftrightarrow> (\<exists>sc \<in> scanned_fwd g x. sc_to sc = y \<and> sc_cost sc = c)"

definition link_bwd :: "CSRGraph \<Rightarrow> u32 \<Rightarrow> u32 \<Rightarrow> real \<Rightarrow> bool" where
  "link_bwd g x y c \<longleftrightarrow> (\<exists>sc \<in> scanned_bwd g y. sc_from sc = x \<and> sc_cost sc = c)"

definition link :: "CSRGraph \<Rightarrow> u32 \<Rightarrow> u32 \<Rightarrow> real \<Rightarrow> bool" where
  "link g x y c \<longleftrightarrow> link_fwd g x y c \<or> link_bwd g x y c"

fun path_links :: "('k \<Rightarrow> 'k \<Rightarrow> real \<Rightarrow> bool) \<Rightarrow> 'k list \<Rightarrow> real list \<Rightarrow> bool" where
  "path_links lnk [] cs = False"
| "path_links lnk [x] cs = (cs = [])"
| "path_links lnk (x # y # xs) [] = False"
| "path_links lnk (x # y # xs) (c # cs) = (lnk x y c \<and> path_links lnk (y # xs) cs)"

text \<open>No shortcut has a negative cost.\<close>

definition nonneg_costs :: "CSRGraph \<Rightarrow> bool" where
  "nonneg_costs g \<longleftrightarrow> list_all (\<lambda>sc. 0 \<le> sc_cost sc) (shortcuts g)"

subsection \<open>Invariants of the searches\<close>

text \<open>
  One direction of a search: its distances, its parents and its queue.  \<open>L\<close> is the key
  popped last.  The root keeps its seed distance \<open>r0\<close> and is its own parent; every queue
  entry has a key of at least \<open>L\<close> and at least the current distance of its edge; an edge
  has a parent exactly when it has a distance; and the distance of an edge is the distance
  of its parent, which is at most \<open>L\<close>, plus the cost of a link from the parent.
\<close>

type_synonym 'k side = "('k \<rightharpoonup> real) \<times> ('k \<rightharpoonup> 'k) \<times> (real \<times> 'k) list"

definition side_inv :: "('k \<Rightarrow> 'k \<Rightarrow> real \<Rightarrow> bool) \<Rightarrow> 'k \<Rightarrow> real \<Rightarrow> real \<Rightarrow> 'k side \<Rightarrow> bool" where
  "side_inv lnk rt r0 L sd \<longleftrightarrow>
     (case sd of (D, P, Q) \<Rightarrow>
        D rt = Some r0 \<and> P rt = Some rt \<and> r0 \<le> L \<and>
        (\<forall>e \<in> set Q. L \<le> fst e \<and> (\<exists>x. D (snd e) = Some x \<and> x \<le> fst e)) \<and>
        (\<forall>v. D v = None \<longleftrightarrow> P v = None) \<and>
        (\<forall>v p. P v = Some p \<and> p \<noteq> v \<longrightarrow>
           (\<exists>c fp. lnk p v c \<and> D p = Some fp \<and> D v = Some (fp + c) \<and> fp \<le> L)) \<and>
        (\<forall>v. P v = Some v \<longrightarrow> v = rt))"

text \<open>The relaxation of one shortcut, on one direction.\<close>

definition relax_side :: "real \<Rightarrow> 'k \<Rightarrow> 'k \<Rightarrow> real \<Rightarrow> 'k side \<Rightarrow> 'k side" where
  "relax_side d u v c sd =
     (case sd of (D, P, Q) \<Rightarrow>
        if (case D v of None \<Rightarrow> True | Some x \<Rightarrow> d + c < x)
        then (D(v \<mapsto> d + c), P(v \<mapsto> u), pq_push (d + c, v) Q)
        else sd)"

definition fwd_side :: "BiState \<Rightarrow> u32 side" where
  "fwd_side st = (dist_fwd st, parent_fwd st, pq_fwd st)"

definition bwd_side :: "BiState \<Rightarrow> u32 side" where
  "bwd_side st = (dist_bwd st, parent_bwd st, pq_bwd st)"

text \<open>Once a meeting is recorded, \<open>best\<close> is the sum of its two current distances.\<close>

definition meet_inv :: "BiState \<Rightarrow> bool" where
  "meet_inv st \<longleftrightarrow>
     (found st \<longrightarrow> (\<exists>f b. dist_fwd st (meeting st) = Some f \<and> dist_bwd st (meeting st) = Some b \<and>
                          best st = Fin (f + b)))"

definition classic_inv :: "CSRGraph \<Rightarrow> u32 \<Rightarrow> u32 \<Rightarrow> BiState \<Rightarrow> bool" where
  "classic_inv g s t st \<longleftrightarrow>
     (\<exists>Lf. side_inv (link_fwd g) s 0 Lf (fwd_side st)) \<and>
     (\<exists>Lb. side_inv (\<lambda>p v c. link_bwd g v p c) t (get_edge_cost g t) Lb (bwd_side st)) \<and>
     meet_inv st"

text \<open>The state while the shortcuts of \<open>u\<close>, popped at \<open>d\<close>, are relaxed.\<close>

definition fwd_scan_inv :: "CSRGraph \<Rightarrow> u32 \<Rightarrow> u32 \<Rightarrow> real \<Rightarrow> u32 \<Rightarrow> BiState \<Rightarrow> bool" where
  "fwd_scan_inv g s t d u st \<longleftrightarrow>
     side_inv (link_fwd g) s 0 d (fwd_side st) \<and> dist_fwd st u = Some d \<and>
     (\<exists>Lb. side_inv (\<lambda>p v c. link_bwd g v p c) t (get_edge_cost g t) Lb (bwd_side st)) \<and>
     meet_inv st"

definition bwd_scan_inv :: "CSRGraph \<Rightarrow> u32 \<Rightarrow> u32 \<Rightarrow> real \<Rightarrow> u32 \<Rightarrow> BiState \<Rightarrow> bool" where
  "bwd_scan_inv g s t d u st \<longleftrightarrow>
     side_inv (\<lambda>p v c. link_bwd g v p c) t (get_edge_cost g t) d (bwd_side st) \<and>
     dist_bwd st u = Some d \<and>
     (\<exists>Lf. side_inv (link_fwd g) s 0 Lf (fwd_side st)) \<and>
     meet_inv st"

text \<open>Plain Dijkstra: the loop invariant, the scan invariant and the state at return.\<close>

definition dij_side :: "DijkstraState \<Rightarrow> u32 side" where
  "dij_side st = (d_dist st, d_parent st, d_pq st)"

definition dij_inv :: "CSRGraph \<Rightarrow> u32 \<Rightarrow> DijkstraState \<Rightarrow> bool" where
  "dij_inv g s st \<longleftrightarrow> (\<exists>L. side_inv (link_fwd g) s 0 L (dij_side st)) \<and> \<not> d_found st"

definition dij_scan_inv :: "CSRGraph \<Rightarrow> u32 \<Rightarrow> real \<Rightarrow> u32 \<Rightarrow> DijkstraState \<Rightarrow> bool" where
  "dij_scan_inv g s d u st \<longleftrightarrow>
     side_inv (link_fwd g) s 0 d (dij_side st) \<and> d_dist st u = Some d \<and> \<not> d_found st"

definition dij_post :: "CSRGraph \<Rightarrow> u32 \<Rightarrow> u32 \<Rightarrow> DijkstraState \<Rightarrow> bool" where
  "dij_post g s t st \<longleftrightarrow>
     (\<exists>L. side_inv (link_fwd g) s 0 L (dij_side st)) \<and>
     (d_found st \<longrightarrow> (\<exists>d. d_best_dist st = Fin d \<and> d_dist st t = Some d))"
section \<open>Least cost\<close>

text \<open>
  What makes a search find a least cost.  An edge is closed when it has a distance and its
  queue entry with that distance is gone; \<open>closed_inv\<close>: every link out of a closed edge has
  been relaxed.  \<open>scan_closed\<close> is the same while the links of \<open>u\<close>, popped at \<open>d\<close>, are
  relaxed: \<open>seen\<close> holds the links done.  \<open>queued sd t\<close>: \<open>t\<close> is not closed.
\<close>

definition closed_inv :: "('k \<Rightarrow> 'k \<Rightarrow> real \<Rightarrow> bool) \<Rightarrow> 'k side \<Rightarrow> bool" where
  "closed_inv lnk sd \<longleftrightarrow>
     (case sd of (D, P, Q) \<Rightarrow>
        distinct Q \<and>
        (\<forall>v x. D v = Some x \<and> (x, v) \<notin> set Q \<longrightarrow>
           (\<forall>y c. lnk v y c \<longrightarrow> (\<exists>z. D y = Some z \<and> z \<le> x + c))))"

definition scan_closed ::
  "('k \<Rightarrow> 'k \<Rightarrow> real \<Rightarrow> bool) \<Rightarrow> 'k \<Rightarrow> real \<Rightarrow> ('k \<times> real) set \<Rightarrow> 'k side \<Rightarrow> bool" where
  "scan_closed lnk u d seen sd \<longleftrightarrow>
     (case sd of (D, P, Q) \<Rightarrow>
        distinct Q \<and> (d, u) \<notin> set Q \<and>
        (\<forall>v x. v \<noteq> u \<and> D v = Some x \<and> (x, v) \<notin> set Q \<longrightarrow>
           (\<forall>y c. lnk v y c \<longrightarrow> (\<exists>z. D y = Some z \<and> z \<le> x + c))) \<and>
        (\<forall>e \<in> seen. \<exists>z. D (fst e) = Some z \<and> z \<le> d + snd e))"

definition queued :: "'k side \<Rightarrow> 'k \<Rightarrow> bool" where
  "queued sd t \<longleftrightarrow> (case sd of (D, P, Q) \<Rightarrow> \<forall>x. D t = Some x \<longrightarrow> (x, t) \<in> set Q)"

text \<open>A path of links from \<open>s\<close> to \<open>t\<close> with the costs \<open>cs\<close>.\<close>

definition connects :: "('k \<Rightarrow> 'k \<Rightarrow> real \<Rightarrow> bool) \<Rightarrow> 'k \<Rightarrow> 'k \<Rightarrow> 'k list \<Rightarrow> real list \<Rightarrow> bool" where
  "connects lnk s t p cs \<longleftrightarrow> path_links lnk p cs \<and> hd p = s \<and> last p = t"




subsection \<open>The four-phase automaton of the unidirectional search\<close>

text \<open>
  \<open>uni_link g high_res x y c\<close>: the loop of \<^verbatim>\<open>query_unidirectional\<close>, expanding the state \<open>x\<close>,
  relaxes a shortcut of cost \<open>c\<close> into the state \<open>y\<close>: the shortcut is in the forward
  scan of the edge of \<open>x\<close>, \<open>uni_phase_step\<close> allows it in the phase of \<open>x\<close>, and \<open>y\<close> packs
  its target with the next phase.  \<open>uni_accepts\<close>: a sequence of states from the source in
  phase 0 to the target in some phase, linked in this way.
\<close>

definition uni_link :: "CSRGraph \<Rightarrow> int \<Rightarrow> u64 \<Rightarrow> u64 \<Rightarrow> real \<Rightarrow> bool" where
  "uni_link g high_res x y c \<longleftrightarrow>
     (\<exists>sc \<in> scanned_fwd g (uni_edge x).
        case uni_phase_step high_res (uni_phase x) sc of
          None \<Rightarrow> False
        | Some ph \<Rightarrow> y = uni_pack (sc_to sc) ph \<and> sc_cost sc = c)"

definition uni_accepts :: "CSRGraph \<Rightarrow> int \<Rightarrow> u32 \<Rightarrow> u32 \<Rightarrow> u64 list \<Rightarrow> real list \<Rightarrow> bool" where
  "uni_accepts g high_res s t xs cs \<longleftrightarrow>
     path_links (uni_link g high_res) xs cs \<and> hd xs = uni_pack s 0 \<and> uni_edge (last xs) = t"

definition uni_side :: "UniState \<Rightarrow> u64 side" where
  "uni_side st = (u_dist_map st, u_parent_map st, u_pq st)"

text \<open>The links of \<open>cur\<close> relaxed after the shortcuts \<open>pre\<close> of its scan.\<close>

definition uni_seen :: "int \<Rightarrow> u64 \<Rightarrow> CSRShortcut list \<Rightarrow> (u64 \<times> real) set" where
  "uni_seen hr cur pre =
     {(uni_pack (sc_to sc) ph, sc_cost sc) | sc ph.
        sc \<in> set pre \<and> uni_phase_step hr (uni_phase cur) sc = Some ph}"

text \<open>
  The loop invariant of \<^verbatim>\<open>query_unidirectional\<close>, the invariant of a scan, and the state
  at return.
\<close>

definition uni_inv :: "CSRGraph \<Rightarrow> int \<Rightarrow> u32 \<Rightarrow> u32 \<Rightarrow> UniState \<Rightarrow> bool" where
  "uni_inv g hr s t st \<longleftrightarrow>
     (\<exists>L. side_inv (uni_link g hr) (uni_pack s 0) 0 L (uni_side st)) \<and>
     closed_inv (uni_link g hr) (uni_side st) \<and>
     (\<forall>y. uni_edge y = t \<longrightarrow> queued (uni_side st) y) \<and>
     \<not> u_found st \<and> u_best_dist st = PInf"

definition uni_scan ::
  "CSRGraph \<Rightarrow> int \<Rightarrow> u32 \<Rightarrow> u32 \<Rightarrow> real \<Rightarrow> u64 \<Rightarrow> CSRShortcut list \<Rightarrow> UniState \<Rightarrow> bool" where
  "uni_scan g hr s t d cur pre st \<longleftrightarrow>
     side_inv (uni_link g hr) (uni_pack s 0) 0 d (uni_side st) \<and>
     u_dist_map st cur = Some d \<and>
     scan_closed (uni_link g hr) cur d (uni_seen hr cur pre) (uni_side st) \<and>
     (\<forall>y. uni_edge y = t \<longrightarrow> queued (uni_side st) y) \<and>
     \<not> u_found st \<and> u_best_dist st = PInf"

definition uni_post :: "CSRGraph \<Rightarrow> int \<Rightarrow> u32 \<Rightarrow> u32 \<Rightarrow> UniState \<Rightarrow> bool" where
  "uni_post g hr s t st \<longleftrightarrow>
     (\<exists>L. side_inv (uni_link g hr) (uni_pack s 0) 0 L (uni_side st)) \<and>
     (u_found st \<longrightarrow>
        (\<exists>d. u_best_dist st = Fin (d + get_edge_cost g t) \<and>
             uni_edge (u_best_end_state st) = t \<and>
             u_dist_map st (u_best_end_state st) = Some d \<and>
             (\<forall>ys cs. uni_accepts g hr s t ys cs \<longrightarrow> d \<le> sum_list cs))) \<and>
     (\<not> u_found st \<longrightarrow> (\<forall>ys cs. \<not> uni_accepts g hr s t ys cs))"
section \<open>Agreement of the searches\<close>














section \<open>Concrete stores\<close>

definition mk_sc :: "u32 \<Rightarrow> u32 \<Rightarrow> real \<Rightarrow> u32 \<Rightarrow> int \<Rightarrow> CSRShortcut" where
  "mk_sc f t c via ins = \<lparr> sc_cell = 0, sc_cost = c, sc_from = f, sc_to = t, sc_via_edge = via, sc_inside = ins \<rparr>"

definition graph_cycle :: CSRGraph where
  "graph_cycle = \<lparr> shortcuts = [mk_sc 1 2 1 3 1, mk_sc 1 3 1 2 1],
     fwd_offsets = [0, 0, 2, 2, 2], bwd_offsets = [0, 0, 0, 1, 2], bwd_indices = [0, 1],
     max_edge_id = 3, edge_meta = Map.empty \<rparr>"

definition graph_s5 :: CSRGraph where
  "graph_s5 = \<lparr> shortcuts = [mk_sc 1 2 1 0 1, mk_sc 1 3 2 2 1, mk_sc 2 3 1 0 1],
     fwd_offsets = [0, 0, 2, 3, 3], bwd_offsets = [0, 0, 0, 1, 3], bwd_indices = [0, 1, 2],
     max_edge_id = 3, edge_meta = Map.empty \<rparr>"

definition mk_edge :: "real \<Rightarrow> CSREdgeMeta" where
  "mk_edge c = \<lparr> to_cell = 0, from_cell = 0, lca_res = -1, length_m = 0, cost = c \<rparr>"

definition graph_s4 :: CSRGraph where
  "graph_s4 = \<lparr> shortcuts = [mk_sc 1 2 4 0 1, mk_sc 2 3 5 0 1, mk_sc 3 4 6 0 (-1)],
     fwd_offsets = [0, 0, 1, 2, 3, 3], bwd_offsets = [0, 0, 0, 1, 2, 3], bwd_indices = [0, 1, 2],
     max_edge_id = 4, edge_meta = [1 \<mapsto> mk_edge 1, 2 \<mapsto> mk_edge 1, 3 \<mapsto> mk_edge 1, 4 \<mapsto> mk_edge 1] \<rparr>"

definition graph_du :: CSRGraph where
  "graph_du = \<lparr> shortcuts = [mk_sc 1 2 10 0 (-1), mk_sc 2 3 10 0 1],
     fwd_offsets = [0, 0, 1, 2, 2], bwd_offsets = [0, 0, 0, 1, 2], bwd_indices = [0, 1],
     max_edge_id = 3, edge_meta = [1 \<mapsto> mk_edge 1, 2 \<mapsto> mk_edge 2, 3 \<mapsto> mk_edge 5] \<rparr>"



text \<open>Five rows as the Parquet reader delivers them, not sorted by source.\<close>

definition mk_row :: "u32 \<Rightarrow> u32 \<Rightarrow> real \<Rightarrow> u32 \<Rightarrow> int \<Rightarrow> TempShortcut" where
  "mk_row f t c via ins = \<lparr> t_from = f, t_to = t, t_cost = c, t_via_edge = via, t_cell = 0, t_inside = ins \<rparr>"

definition rows_l5 :: "TempShortcut list" where
  "rows_l5 = [mk_row 3 1 7 0 (-1), mk_row 1 2 4 0 1, mk_row 2 3 5 0 1, mk_row 1 3 9 2 1, mk_row 3 4 6 0 0]"

text \<open>The store that loading these rows into a fresh graph produces.\<close>

definition graph_l5 :: CSRGraph where
  "graph_l5 = \<lparr> shortcuts = [mk_sc 1 2 4 0 1, mk_sc 1 3 9 2 1, mk_sc 2 3 5 0 1, mk_sc 3 1 7 0 (-1), mk_sc 3 4 6 0 0],
     fwd_offsets = [0, 0, 2, 3, 5, 5], bwd_offsets = [0, 0, 1, 2, 4, 5], bwd_indices = [3, 0, 1, 2, 4],
     max_edge_id = 4, edge_meta = Map.empty \<rparr>"

section \<open>H3 laws\<close>

lemma lca_inv_step:
  assumes law: "h3_lawful h" and nz: "cell \<noteq> 0" and inv: "lca_inv h cell c m" and pos: "0 < m"
  shows "lca_inv h cell (cell_to_parent h c (m - 1)) (m - 1)"
proof (cases "c = 0")
  case True
  then show ?thesis by (simp add: lca_inv_def cell_to_parent_def)
next
  case False
  with inv have m: "m \<le> getResolution h cell" and c: "c = cell_to_parent h cell m"
    and rc: "getResolution h c = m"
    by (auto simp: lca_inv_def)
  from law False rc pos obtain p where p: "cellToParent h c (m - 1) = Some p"
    and rp: "getResolution h p = m - 1"
    unfolding h3_lawful_def by (metis diff_ge_0_iff_ge zle_diff1_eq zless_imp_add1_zle add.commute less_irrefl linorder_not_le diff_less_eq less_add_one)
  have step: "cell_to_parent h c (m - 1) = p"
    using False rc pos p by (simp add: cell_to_parent_def)
  have same: "cellToParent h cell (m - 1) = Some p"
  proof (cases "m = getResolution h cell")
    case True
    with c nz pos have "c = cell" by (simp add: cell_to_parent_def)
    with p show ?thesis by simp
  next
    case False
    with m have lt: "m < getResolution h cell" by simp
    from law nz pos lt obtain q where q: "cellToParent h cell m = Some q"
      unfolding h3_lawful_def by (metis less_imp_le)
    with c nz pos lt have "c = q" by (simp add: cell_to_parent_def)
    with law nz pos lt q \<open>c \<noteq> 0\<close> have "cellToParent h c (m - 1) = cellToParent h cell (m - 1)"
      unfolding h3_lawful_def
      by (metis diff_ge_0_iff_ge zle_diff1_eq diff_less_eq less_add_one)
    with p show ?thesis by simp
  qed
  have "cell_to_parent h cell (m - 1) = p"
    using nz pos m same by (simp add: cell_to_parent_def)
  with step rp pos m show ?thesis by (simp add: lca_inv_def)
qed

lemma find_lca_loop_inv:
  "h3_lawful h \<Longrightarrow> cell \<noteq> 0 \<Longrightarrow> lca_inv h cell c1 m \<Longrightarrow>
   find_lca_loop h c1 c2 m = (a, b) \<Longrightarrow> \<exists>m'. lca_inv h cell a m'"
proof (induction h c1 c2 m rule: find_lca_loop.induct)
  case (1 h c1 c2 min_res)
  show ?case
  proof (cases "c1 \<noteq> c2 \<and> min_res > 0")
    case True
    then have "find_lca_loop h (cell_to_parent h c1 (min_res - 1))
                 (cell_to_parent h c2 (min_res - 1)) (min_res - 1) = (a, b)"
      using "1.prems"(4) by (subst (asm) find_lca_loop.simps) simp
    moreover have "lca_inv h cell (cell_to_parent h c1 (min_res - 1)) (min_res - 1)"
      using lca_inv_step [OF "1.prems"(1,2,3)] True by simp
    ultimately show ?thesis using "1.IH" True "1.prems"(1,2) by blast
  next
    case False
    then have "a = c1" using "1.prems"(4) by (subst (asm) find_lca_loop.simps) auto
    then show ?thesis using "1.prems"(3) by blast
  qed
qed

lemma lca_parent_check:
  assumes law: "h3_lawful h" and c: "c \<noteq> 0" and c': "c' \<noteq> 0"
  shows "parent_check h c (find_lca h c c') (get_resolution h (find_lca h c c'))"
proof -
  let ?r1 = "getResolution h c" and ?r2 = "getResolution h c'"
  let ?m = "if ?r1 < ?r2 then ?r1 else ?r2"
  let ?c1 = "if ?r1 > ?m then cell_to_parent h c ?m else c"
  let ?c2 = "if ?r2 > ?m then cell_to_parent h c' ?m else c'"
  obtain a b where ab: "find_lca_loop h ?c1 ?c2 ?m = (a, b)" by fastforce
  have r1: "0 \<le> ?r1" and r2: "0 \<le> ?r2" using law by (auto simp: h3_lawful_def)
  have start: "lca_inv h c ?c1 ?m"
  proof (cases "?r1 > ?m")
    case True
    then have lt: "?r2 < ?r1" and m: "?m = ?r2" by (auto split: if_splits)
    from law c r2 lt obtain p where "cellToParent h c ?r2 = Some p" "getResolution h p = ?r2"
      unfolding h3_lawful_def by blast
    then show ?thesis using c r2 lt by (simp add: lca_inv_def cell_to_parent_def)
  next
    case False
    then have "?m = ?r1" by (auto split: if_splits)
    then show ?thesis using c r1 by (simp add: lca_inv_def cell_to_parent_def)
  qed
  from find_lca_loop_inv [OF law c start ab] obtain m' where inv: "lca_inv h c a m'" by blast
  have lca: "find_lca h c c' = (if a = b then a else 0)"
    using c c' ab by (simp add: find_lca_def Let_def)
  show ?thesis
  proof (cases "find_lca h c c' = 0")
    case True
    then show ?thesis by (simp add: parent_check_def)
  next
    case False
    with lca have eq: "find_lca h c c' = a" and nz: "a \<noteq> 0" by (auto split: if_splits)
    with inv have "0 \<le> m'" "m' \<le> ?r1" "a = cell_to_parent h c m'" "getResolution h a = m'"
      by (auto simp: lca_inv_def)
    then show ?thesis using eq nz c
      by (simp add: parent_check_def get_resolution_def)
  qed
qed

lemma cell_to_parent_self:
  assumes law: "h3_lawful h" and c: "c \<noteq> 0"
  shows "cell_to_parent h c (get_resolution h c) = c"
proof -
  have "0 \<le> getResolution h c" using law by (simp add: h3_lawful_def)
  then show ?thesis using c by (simp add: cell_to_parent_def get_resolution_def)
qed

subsection \<open>The H3 library's bit layout satisfies the laws\<close>

lemma bit_7_int: "bit (7 :: int) j \<longleftrightarrow> j < 3"
proof -
  have e: "(mask 3 :: int) = 7" by (simp add: mask_eq_exp_minus_1)
  have "bit (mask 3 :: int) j \<longleftrightarrow> j < 3" by (auto simp: bit_mask_iff)
  then show ?thesis unfolding e .
qed

lemma bit_15_int: "bit (15 :: int) j \<longleftrightarrow> j < 4"
proof -
  have e: "(mask 4 :: int) = 15" by (simp add: mask_eq_exp_minus_1)
  have "bit (mask 4 :: int) j \<longleftrightarrow> j < 4" by (auto simp: bit_mask_iff)
  then show ?thesis unfolding e .
qed

lemma bit_res_mask: "bit (push_bit 52 15 :: u64) i \<longleftrightarrow> 52 \<le> i \<and> i < 56"
  unfolding bit_push_bit_iff bit_numeral_word_iff bit_15_int
  by (auto simp del: push_bit_numeral)

lemma bit_h3_set_digits:
  "lo + n \<le> 16 \<Longrightarrow>
   bit (h3_set_digits c lo n) i \<longleftrightarrow> bit c i \<or> (3 * (16 - lo - n) \<le> i \<and> i < 3 * (16 - lo))"
proof (induction n arbitrary: c)
  case 0
  then show ?case by auto
next
  case (Suc n)
  have "bit (h3_set_digits c lo (Suc n)) i \<longleftrightarrow>
        bit (c OR push_bit (3 * (15 - (lo + n))) 7) i \<or> (3 * (16 - lo - n) \<le> i \<and> i < 3 * (16 - lo))"
    using Suc by simp
  also have "\<dots> \<longleftrightarrow> bit c i \<or> (3 * (15 - (lo + n)) \<le> i \<and> i < 3 * (15 - (lo + n)) + 3) \<or>
        (3 * (16 - lo - n) \<le> i \<and> i < 3 * (16 - lo))"
    using Suc.prems by (simp add: bit_or_iff bit_push_bit_iff bit_7_int) linarith
  also have "\<dots> \<longleftrightarrow> bit c i \<or> (3 * (16 - lo - Suc n) \<le> i \<and> i < 3 * (16 - lo))"
    using Suc.prems by auto
  finally show ?case .
qed

lemma res_bits: "h3_getResolution c = uint (take_bit 4 (drop_bit 52 c))"
proof -
  have e: "(mask 4 :: u64) = 15" by (simp add: mask_eq_exp_minus_1)
  show ?thesis unfolding h3_getResolution_def take_bit_eq_mask e ..
qed

lemma res_range: "0 \<le> h3_getResolution c" "h3_getResolution c \<le> 15"
proof -
  show "0 \<le> h3_getResolution c" by (simp add: h3_getResolution_def)
  have "uint (take_bit 4 (drop_bit 52 c)) = take_bit 4 (uint (drop_bit 52 c))"
    by (simp add: unsigned_take_bit_eq)
  moreover have "take_bit 4 (uint (drop_bit 52 c)) < 2 ^ 4" by (rule take_bit_int_less_exp)
  ultimately have "uint (take_bit 4 (drop_bit 52 c)) < 16" by simp
  then show "h3_getResolution c \<le> 15" by (simp add: res_bits)
qed

lemma bit_h3_parent:
  assumes "int r < h3_getResolution c"
  shows "bit (h3_parent c r) i \<longleftrightarrow>
     (if 52 \<le> i \<and> i < 56 then bit r (i - 52)
      else if 3 * (15 - nat (h3_getResolution c)) \<le> i \<and> i < 3 * (15 - r) then True
      else bit c i)"
proof -
  let ?R = "nat (h3_getResolution c)"
  have R: "?R \<le> 15" "r < ?R" using assms res_range [of c] by auto
  have "r + 1 + (?R - r) \<le> 16" using R by simp
  from bit_h3_set_digits [OF this]
  have "bit (h3_parent c r) i \<longleftrightarrow>
        bit ((c AND NOT (push_bit 52 15)) OR push_bit 52 (word_of_nat r) :: u64) i \<or>
        (3 * (16 - (r + 1) - (?R - r)) \<le> i \<and> i < 3 * (16 - (r + 1)))"
    by (simp add: h3_parent_def)
  moreover have "3 * (16 - (r + 1) - (?R - r)) = 3 * (15 - ?R)" "3 * (16 - (r + 1)) = 3 * (15 - r)"
    using R by auto
  moreover have "bit ((c AND NOT (push_bit 52 15)) OR push_bit 52 (word_of_nat r) :: u64) i \<longleftrightarrow>
     (if 52 \<le> i \<and> i < 56 then bit r (i - 52) else bit c i)"
  proof -
    have small: "bit r j \<Longrightarrow> j < 4" for j
    proof -
      assume b: "bit r j"
      have e: "take_bit 4 r = r" using R by (intro take_bit_nat_eq_self) simp
      from b have "bit (take_bit 4 r) j" unfolding e .
      then show "j < 4" unfolding bit_take_bit_iff by blast
    qed
    show ?thesis
      unfolding bit_or_iff bit_and_iff bit_not_iff bit_res_mask
      unfolding bit_push_bit_iff bit_of_nat_iff
      using small [of "i - 52"] by (auto simp del: push_bit_numeral dest: bit_imp_possible_bit)
  qed
  ultimately show ?thesis using R by auto
qed


lemma h3_cellToParent_eq:
  assumes "0 \<le> r" "r < h3_getResolution c"
  shows "h3_cellToParent c r = Some (h3_parent c (nat r))"
proof -
  have "r \<le> 15" using assms res_range [of c] by simp
  moreover have "nat r + 1 = nat r + 1" ..
  moreover have "nat (h3_getResolution c - r) = nat (h3_getResolution c) - nat r"
    using assms by simp
  moreover have "(word_of_int r :: u64) = word_of_nat (nat r)" using assms by simp
  ultimately show ?thesis using assms
    by (simp add: h3_cellToParent_def h3_parent_def Let_def del: of_nat_nat)
qed

lemma h3_parent_res:
  assumes "int r < h3_getResolution c"
  shows "h3_getResolution (h3_parent c r) = int r"
proof -
  have R: "r < 16" using assms res_range [of c] by simp
  have "take_bit 4 (drop_bit 52 (h3_parent c r)) = (word_of_nat r :: u64)"
  proof (rule bit_word_eqI)
    fix n assume "n < LENGTH(64)"
    have e: "take_bit 4 r = r" using R by (intro take_bit_nat_eq_self) simp
    have small: "bit r n \<Longrightarrow> n < 4"
    proof -
      assume "bit r n"
      then have "bit (take_bit 4 r) n" unfolding e .
      then show "n < 4" unfolding bit_take_bit_iff by blast
    qed
    show "bit (take_bit 4 (drop_bit 52 (h3_parent c r))) n \<longleftrightarrow> bit (word_of_nat r :: u64) n"
      unfolding bit_take_bit_iff bit_drop_bit_eq bit_h3_parent [OF assms] bit_of_nat_iff
      using small \<open>n < LENGTH(64)\<close> by auto
  qed
  then have "h3_getResolution (h3_parent c r) = uint (word_of_nat r :: u64)"
    by (simp only: res_bits)
  also have "\<dots> = int r" using R by (simp add: uint_nat unat_of_nat take_bit_nat_eq_self del: of_nat_nat)
  finally show ?thesis .
qed

lemma h3_parent_trans:
  assumes "r2 < r1" "int r1 < h3_getResolution c"
  shows "h3_parent (h3_parent c r1) r2 = h3_parent c r2"
proof (rule bit_word_eqI)
  fix n assume "n < LENGTH(64)"
  have r1: "h3_getResolution (h3_parent c r1) = int r1" by (rule h3_parent_res [OF assms(2)])
  have a: "int r2 < h3_getResolution (h3_parent c r1)" using assms r1 by simp
  have b: "int r2 < h3_getResolution c" using assms by simp
  have R: "nat (h3_getResolution c) \<le> 15" using res_range [of c] by simp
  show "bit (h3_parent (h3_parent c r1) r2) n \<longleftrightarrow> bit (h3_parent c r2) n"
    unfolding bit_h3_parent [OF a] bit_h3_parent [OF b] bit_h3_parent [OF assms(2)] r1
    using assms R by auto
qed

lemma h3_library_lawful: "h3_lawful h3_library"
proof -
  have 1: "0 \<le> h3_getResolution c" for c by (rule res_range)
  have 2: "\<exists>p. h3_cellToParent c r = Some p \<and> h3_getResolution p = r"
    if "0 \<le> r" "r < h3_getResolution c" for c r
    using that h3_cellToParent_eq [of r c] h3_parent_res [of "nat r" c] by simp
  have 3: "h3_cellToParent p r2 = h3_cellToParent c r2"
    if "0 \<le> r2" "r2 < r1" "r1 < h3_getResolution c" "h3_cellToParent c r1 = Some p" for c r1 r2 p
  proof -
    have p: "p = h3_parent c (nat r1)" using that h3_cellToParent_eq [of r1 c] by simp
    have rp: "h3_getResolution p = r1" using that h3_parent_res [of "nat r1" c] p by simp
    have "h3_cellToParent p r2 = Some (h3_parent p (nat r2))"
      using that rp h3_cellToParent_eq [of r2 p] by simp
    moreover have "h3_cellToParent c r2 = Some (h3_parent c (nat r2))"
      using that h3_cellToParent_eq [of r2 c] by simp
    moreover have "h3_parent p (nat r2) = h3_parent c (nat r2)"
      unfolding p using that by (intro h3_parent_trans) auto
    ultimately show ?thesis by simp
  qed
  show ?thesis unfolding h3_lawful_def h3_library_def using 1 2 3 by simp blast
qed


text \<open>
  Claim C9.  For an H3 library that satisfies \<open>h3_lawful\<close> and all non-zero cells \<open>c\<close>,
  \<open>c'\<close>: \<open>parent_check c (lca c c') (resolution (lca c c'))\<close> is true, and
  \<open>cell_to_parent c (resolution c) = c\<close>.
\<close>

theorem h3_laws:
  assumes "h3_lawful h" "c \<noteq> 0" "c' \<noteq> 0"
  shows "parent_check h c (find_lca h c c') (get_resolution h (find_lca h c c')) \<and>
         cell_to_parent h c (get_resolution h c) = c"
  using lca_parent_check [OF assms] cell_to_parent_self [OF assms(1,2)] by simp

text \<open>
  The laws at two resolution-9 cells of the H3 library's own layout; their lowest common
  ancestor is the resolution-7 cell \<open>0x872830828ffffff\<close>.
\<close>

theorem h3_laws_witness:
  "h3_lawful h3_library \<and> (0x8928308280fffff :: u64) \<noteq> 0 \<and> (0x892830828c7ffff :: u64) \<noteq> 0 \<and>
   find_lca h3_library 0x8928308280fffff 0x892830828c7ffff = 0x872830828ffffff \<and>
   get_resolution h3_library 0x872830828ffffff = 7 \<and>
   parent_check h3_library 0x8928308280fffff 0x872830828ffffff 7 \<and>
   get_resolution h3_library 0x8928308280fffff = 9 \<and>
   cell_to_parent h3_library 0x8928308280fffff 9 = 0x8928308280fffff"
proof -
  have nz: "(0x8928308280fffff :: u64) \<noteq> 0" "(0x892830828c7ffff :: u64) \<noteq> 0" by simp_all
  have l: "find_lca h3_library 0x8928308280fffff 0x892830828c7ffff = 0x872830828ffffff"
    by code_simp
  have r: "get_resolution h3_library 0x872830828ffffff = 7"
    "get_resolution h3_library 0x8928308280fffff = 9" by code_simp+
  show ?thesis
    using h3_laws [OF h3_library_lawful nz] nz l r h3_library_lawful by simp
qed

section \<open>Path expansion: results\<close>

lemma csr_in_boundsD:
  assumes "csr_in_bounds g" "is_valid_edge g u"
  shows "unat u < length (fwd_offsets g)" "unat (fwd_offsets g ! unat (u + 1)) \<le> length (shortcuts g)"
proof -
  have "u \<le> max_edge_id g" using assms(2) by (simp add: is_valid_edge_def)
  then have "unat u \<in> set [0 ..< Suc (unat (max_edge_id g))]"
    by (auto simp: word_le_nat_alt)
  with assms(1) have "let u' = (word_of_nat (unat u) :: u32) in
                 is_valid_edge g u' \<longrightarrow>
                   unat u' < length (fwd_offsets g) \<and>
                   unat (fwd_offsets g ! unat (u' + 1)) \<le> length (shortcuts g)"
    unfolding csr_in_bounds_def list_all_iff by blast
  with assms(2) show "unat u < length (fwd_offsets g)" "unat (fwd_offsets g ! unat (u + 1)) \<le> length (shortcuts g)"
    by (simp_all add: Let_def)
qed

lemma find_shortcut_scan_returns:
  "i + n \<le> length scs \<Longrightarrow> \<exists>r. find_shortcut_scan scs v i n = Returns r"
  by (induction n arbitrary: i) auto

lemma find_shortcut_index_returns:
  assumes "csr_in_bounds g"
  shows "\<exists>r. find_shortcut_index g u v = Returns r"
proof (cases "is_valid_edge g u")
  case False
  then show ?thesis by (simp add: find_shortcut_index_def get_fwd_range_def)
next
  case True
  note b = csr_in_boundsD [OF assms True]
  have "unat (fwd_offsets g ! unat u) + (unat (fwd_offsets g ! unat (u + 1)) - unat (fwd_offsets g ! unat u))
        \<le> length (shortcuts g) \<or> unat (fwd_offsets g ! unat (u + 1)) - unat (fwd_offsets g ! unat u) = 0"
    using b(2) by linarith
  then show ?thesis
    using True b(1) find_shortcut_scan_returns [of "unat (fwd_offsets g ! unat u)" _ "shortcuts g" v]
    by (auto simp: find_shortcut_index_def get_fwd_range_def)
qed

lemma expand_returns:
  "csr_in_bounds g \<Longrightarrow> \<exists>r. expand g u v depth = Returns r"
proof (induction g u v depth rule: expand.induct)
  case (1 g u v depth)
  from find_shortcut_index_returns [OF "1.prems"] obtain idx
    where idx: "find_shortcut_index g u v = Returns idx" by blast
  show ?case
  proof (cases "depth > 50 \<or> idx < 0 \<or> idx \<ge> sint (word_of_nat (length (shortcuts g)) :: u32)
                \<or> sc_via_edge (shortcuts g ! nat idx) = u \<or> sc_via_edge (shortcuts g ! nat idx) = v
                \<or> sc_via_edge (shortcuts g ! nat idx) = 0")
    case True
    then show ?thesis using idx by (subst expand.simps) (auto simp: Let_def)
  next
    case False
    let ?via = "sc_via_edge (shortcuts g ! nat idx)"
    from False idx "1.IH"(1) [of idx ?via] "1.prems"
    obtain xs where xs: "expand g u ?via (depth + 1) = Returns xs" by auto
    from False idx xs "1.IH"(2) [of idx ?via xs] "1.prems"
    obtain ys where ys: "expand g ?via v (depth + 1) = Returns ys" by auto
    show ?thesis using False idx xs ys by (subst expand.simps) (auto simp: Let_def)
  qed
qed

lemma expand_hd:
  "expand g u v depth = Returns xs \<Longrightarrow> xs \<noteq> [] \<and> hd xs = u"
proof (induction g u v depth arbitrary: xs rule: expand.induct)
  case (1 g u v depth)
  show ?case
  proof (cases "find_shortcut_index g u v")
    case OutOfBounds
    then show ?thesis using "1.prems" by (subst (asm) expand.simps) (auto split: if_splits)
  next
    case (Returns idx)
    show ?thesis
    proof (cases "depth > 50 \<or> idx < 0 \<or> idx \<ge> sint (word_of_nat (length (shortcuts g)) :: u32)
                \<or> sc_via_edge (shortcuts g ! nat idx) = u \<or> sc_via_edge (shortcuts g ! nat idx) = v
                \<or> sc_via_edge (shortcuts g ! nat idx) = 0")
      case True
      then show ?thesis using Returns "1.prems"
        by (subst (asm) expand.simps) (auto simp: Let_def split: if_splits)
    next
      case False
      let ?via = "sc_via_edge (shortcuts g ! nat idx)"
      from False Returns "1.prems" obtain as bs
        where as: "expand g u ?via (depth + 1) = Returns as" and xs: "xs = as @ bs"
        by (subst (asm) expand.simps) (auto simp: Let_def split: if_splits outcome.splits)
      from "1.IH"(1) [of idx ?via as] False Returns as have "as \<noteq> [] \<and> hd as = u" by auto
      then show ?thesis using xs by auto
    qed
  qed
qed

lemma expand_pairs_returns:
  "csr_in_bounds g \<Longrightarrow> \<exists>r. expand_pairs g p = Returns r"
proof (induction g p rule: expand_pairs.induct)
  case (1 g a b rest)
  then show ?case using expand_returns [of g a b 0] by auto
qed auto

lemma expand_pairs_hd:
  "expand_pairs g (a # b # rest) = Returns r \<Longrightarrow> r \<noteq> [] \<and> hd r = a"
  using expand_hd [of g a b 0] by (auto split: outcome.splits)

text \<open>
  Claim C10.  \<^verbatim>\<open>expand_path\<close> returns an input of at most one element unchanged.  On an
  input of two or more elements it returns whenever the forward ranges lie inside the
  vectors, and whatever it returns begins with the input's first and ends with the input's
  last element.
\<close>

theorem expand_path_ends:
  "(length p \<le> 1 \<longrightarrow> expand_path g p = Returns p) \<and>
   (2 \<le> length p \<longrightarrow>
      (csr_in_bounds g \<longrightarrow> (\<exists>r. expand_path g p = Returns r)) \<and>
      (\<forall>r. expand_path g p = Returns r \<longrightarrow> hd r = hd p \<and> last r = last p))"
proof (intro conjI impI allI)
  assume "length p \<le> 1"
  then show "expand_path g p = Returns p" by (simp add: expand_path_def)
next
  assume "2 \<le> length p" "csr_in_bounds g"
  then show "\<exists>r. expand_path g p = Returns r"
    using expand_pairs_returns [of g p] by (auto simp: expand_path_def)
next
  fix r assume len: "2 \<le> length p" and r: "expand_path g p = Returns r"
  from len obtain a b rest where p: "p = a # b # rest"
    by (cases p; cases "tl p") auto
  from r p obtain res where res: "expand_pairs g (a # b # rest) = Returns res"
    and rr: "r = res @ [last p]"
    by (auto simp: expand_path_def split: outcome.splits)
  from expand_pairs_hd [OF res] rr p show "hd r = hd p" by auto
  from rr show "last r = last p" by simp
qed


lemma expand_uncut_shift:
  "\<not> expand_cut g u v d \<Longrightarrow> d' \<le> d \<Longrightarrow> expand g u v d' = expand g u v d"
proof (induction g u v d arbitrary: d' rule: expand.induct)
  case (1 g u v depth)
  from "1.prems"(1) have d: "\<not> depth > 50" by (subst (asm) expand_cut.simps) auto
  with "1.prems"(2) have d': "\<not> d' > 50" by simp
  show ?case
  proof (cases "find_shortcut_index g u v")
    case OutOfBounds
    then show ?thesis using d d' by (simp add: expand.simps [of g u v])
  next
    case (Returns idx)
    show ?thesis
    proof (cases "idx < 0 \<or> idx \<ge> sint (word_of_nat (length (shortcuts g)) :: u32)
                \<or> sc_via_edge (shortcuts g ! nat idx) = u \<or> sc_via_edge (shortcuts g ! nat idx) = v
                \<or> sc_via_edge (shortcuts g ! nat idx) = 0")
      case True
      then show ?thesis using d d' Returns by (auto simp: expand.simps [of g u v] Let_def)
    next
      case False
      let ?via = "sc_via_edge (shortcuts g ! nat idx)"
      from "1.prems"(1) d Returns False
      have c1: "\<not> expand_cut g u ?via (depth + 1)" and c2: "\<not> expand_cut g ?via v (depth + 1)"
        by (subst (asm) expand_cut.simps; simp add: Let_def)+
      have e1: "expand g u ?via (d' + 1) = expand g u ?via (depth + 1)"
        using "1.IH"(1) [of idx ?via "d' + 1"] d Returns False c1 "1.prems"(2) by auto
      have e2: "expand g ?via v (d' + 1) = expand g ?via v (depth + 1)"
        if "expand g u ?via (depth + 1) = Returns xs" for xs
        using "1.IH"(2) [of idx ?via xs "d' + 1"] d Returns False c2 "1.prems"(2) that by auto
      show ?thesis
        using d d' Returns False e1 e2
        by (auto simp: expand.simps [of g u v] Let_def split: outcome.splits)
    qed
  qed
qed

text \<open>
  Claim C7, as amended.  Let \<^verbatim>\<open>find_shortcut_index\<close> find for \<open>(u, v)\<close> a shortcut whose
  \<open>via_edge\<close> \<open>w\<close> is none of \<open>0\<close>, \<open>u\<close>, \<open>v\<close>, and let the expansion of \<open>(u, v)\<close>
  stay below the depth cap of 50.  Then \<open>expand_path [u, v]\<close> is \<open>expand_path [u, w]\<close>
  followed by the tail of \<open>expand_path [w, v]\<close>.
\<close>

theorem expand_path_via:
  assumes idx: "find_shortcut_index g u v = Returns idx" "0 \<le> idx"
      "idx < sint (word_of_nat (length (shortcuts g)) :: u32)"
    and via: "sc_via_edge (shortcuts g ! nat idx) = w" "w \<noteq> 0" "w \<noteq> u" "w \<noteq> v"
    and uncut: "\<not> expand_cut g u v 0"
    and r: "expand_path g [u, v] = Returns r"
  shows "\<exists>a b. expand_path g [u, w] = Returns a \<and> expand_path g [w, v] = Returns b \<and> r = a @ tl b"
proof -
  from r obtain es where es: "expand g u v 0 = Returns es" and res: "r = es @ [v]"
    by (auto simp: expand_path_def split: outcome.splits)
  from es idx via obtain xs ys where xs: "expand g u w 1 = Returns xs"
    and ys: "expand g w v 1 = Returns ys" and eq: "es = xs @ ys"
    by (subst (asm) expand.simps) (auto simp: Let_def split: outcome.splits if_splits)
  from uncut idx via have "\<not> expand_cut g u w 1" "\<not> expand_cut g w v 1"
    by (subst (asm) expand_cut.simps; simp add: Let_def)+
  then have "expand g u w 0 = expand g u w 1" "expand g w v 0 = expand g w v 1"
    using expand_uncut_shift [of g u w 1 0] expand_uncut_shift [of g w v 1 0] by simp_all
  with xs ys have xs0: "expand g u w 0 = Returns xs" and ys0: "expand g w v 0 = Returns ys"
    by simp_all
  from expand_hd [OF ys] obtain ys' where ys': "ys = w # ys'" by (cases ys) auto
  have "expand_path g [u, w] = Returns (xs @ [w])" "expand_path g [w, v] = Returns (ys @ [v])"
    using xs0 ys0 by (simp_all add: expand_path_def)
  moreover have "r = (xs @ [w]) @ tl (ys @ [v])" using res eq ys' by simp
  ultimately show ?thesis by blast
qed

theorem expand_path_via_witness:
  "find_shortcut_index graph_s5 1 3 = Returns 1 \<and> sc_via_edge (shortcuts graph_s5 ! 1) = 2 \<and>
   \<not> expand_cut graph_s5 1 3 0 \<and> expand_path graph_s5 [1, 3] = Returns [1, 2, 3] \<and>
   expand_path graph_s5 [1, 2] = Returns [1, 2] \<and> expand_path graph_s5 [2, 3] = Returns [2, 3]"
proof -
  have a: "find_shortcut_index graph_s5 1 3 = Returns 1" by code_simp
  have b: "sc_via_edge (shortcuts graph_s5 ! nat 1) = 2" by code_simp
  have c: "\<not> expand_cut graph_s5 1 3 0" by code_simp
  have d: "expand_path graph_s5 [1, 3] = Returns [1, 2, 3]" by code_simp
  have e: "(1::int) < sint (word_of_nat (length (shortcuts graph_s5)) :: u32)" by code_simp
  from expand_path_via [OF a _ e b _ _ _ c d]
  obtain x y where "expand_path graph_s5 [1, 2] = Returns x" "expand_path graph_s5 [2, 3] = Returns y"
    "[1, 2, 3] = x @ tl y" by auto
  moreover have "expand_path graph_s5 [1, 2] = Returns [1, 2]" "expand_path graph_s5 [2, 3] = Returns [2, 3]"
    by code_simp+
  ultimately show ?thesis using a b c d by simp
qed

text \<open>
  Claim C7 as stated fails where the depth cap cuts the recursion.  With the shortcuts
  \<open>(1, 2)\<close> via 3 and \<open>(1, 3)\<close> via 2 the expansion of \<open>[1, 2]\<close> has 53 elements, and
  \<open>expand_path [1, 3]\<close> followed by the tail of \<open>expand_path [3, 2]\<close> has 54: the two
  halves are expanded one level deeper inside \<open>expand_path [1, 2]\<close> than on their own.
\<close>

theorem expand_path_via_counterexample:
  "find_shortcut_index graph_cycle 1 2 = Returns 0 \<and>
   sc_via_edge (shortcuts graph_cycle ! 0) = 3 \<and>
   expand_path graph_cycle [1, 2] = Returns (1 # 3 # concat (replicate 25 [2, 3]) @ [2]) \<and>
   expand_path graph_cycle [1, 3] = Returns (1 # 2 # concat (replicate 25 [3, 2]) @ [3]) \<and>
   expand_path graph_cycle [3, 2] = Returns [3, 2] \<and>
   1 # 3 # concat (replicate 25 [2, 3]) @ [2]
     \<noteq> (1 # 2 # concat (replicate 25 [3, 2]) @ [3]) @ tl [3, 2::u32]"
  by code_simp

theorem expand_path_ends_witness:
  "csr_in_bounds graph_s5 \<and> (2::nat) \<le> length [1, 3 :: u32] \<and>
   expand_path graph_s5 [1, 3] = Returns [1, 2, 3] \<and>
   hd [1, 2, 3 :: u32] = hd [1, 3] \<and> last [1, 2, 3 :: u32] = last [1, 3] \<and>
   length [7 :: u32] \<le> 1 \<and> expand_path graph_s5 [7] = Returns [7]"
proof -
  have a: "csr_in_bounds graph_s5" by code_simp
  have b: "expand_path graph_s5 [1, 3] = Returns [1, 2, 3]" by code_simp
  show ?thesis
    using a b expand_path_ends [of "[1, 3]" graph_s5] expand_path_ends [of "[7]" graph_s5]
    by simp
qed

section \<open>Queries: endpoints, self-queries, seeding, pruning rules\<close>

text \<open>
  Claim C3, as amended.  For a query with distinct endpoints: \<^verbatim>\<open>query_classic\<close>,
  \<^verbatim>\<open>query_bidijkstra\<close>, \<^verbatim>\<open>query_pruned\<close> and \<^verbatim>\<open>query_dijkstra\<close> return \<open>reachable = False\<close>,
  distance \<open>-1\<close>, an empty path and the message \<open>Source edge not found\<close> when the source has
  no metadata, \<open>Target edge not found\<close> when the source has and the target has not;
  \<^verbatim>\<open>query_unidirectional\<close> returns the same two results when the source, or else the
  target, fails \<^verbatim>\<open>is_valid_edge\<close> (is out of CSR range).
\<close>

theorem endpoint_not_found:
  assumes "s \<noteq> t"
  shows "(edge_meta g s = None \<longrightarrow>
            query_classic g s t = Some (Returns \<lparr> distance = -1, path = [], reachable = False, error = ''Source edge not found'' \<rparr>) \<and>
            query_bidijkstra g s t = Some (Returns \<lparr> distance = -1, path = [], reachable = False, error = ''Source edge not found'' \<rparr>) \<and>
            query_pruned h g s t = Some (Returns \<lparr> distance = -1, path = [], reachable = False, error = ''Source edge not found'' \<rparr>) \<and>
            query_dijkstra g s t = Some (Returns \<lparr> distance = -1, path = [], reachable = False, error = ''Source edge not found'' \<rparr>)) \<and>
         (edge_meta g s \<noteq> None \<and> edge_meta g t = None \<longrightarrow>
            query_classic g s t = Some (Returns \<lparr> distance = -1, path = [], reachable = False, error = ''Target edge not found'' \<rparr>) \<and>
            query_bidijkstra g s t = Some (Returns \<lparr> distance = -1, path = [], reachable = False, error = ''Target edge not found'' \<rparr>) \<and>
            query_pruned h g s t = Some (Returns \<lparr> distance = -1, path = [], reachable = False, error = ''Target edge not found'' \<rparr>) \<and>
            query_dijkstra g s t = Some (Returns \<lparr> distance = -1, path = [], reachable = False, error = ''Target edge not found'' \<rparr>)) \<and>
         (\<not> is_valid_edge g s \<longrightarrow>
            query_unidirectional h g s t = Some (Returns \<lparr> distance = -1, path = [], reachable = False, error = ''Source edge not found'' \<rparr>)) \<and>
         (is_valid_edge g s \<and> \<not> is_valid_edge g t \<longrightarrow>
            query_unidirectional h g s t = Some (Returns \<lparr> distance = -1, path = [], reachable = False, error = ''Target edge not found'' \<rparr>))"
  using assms
  by (simp add: query_classic_def query_bidijkstra_def query_pruned_def query_dijkstra_def
      query_unidirectional_def no_result_def)

lemma s4_meta: "edge_meta graph_s4 9999 = None" "edge_meta graph_s4 1 \<noteq> None"
  "\<not> is_valid_edge graph_s4 9999" "is_valid_edge graph_s4 1"
  by (simp_all add: graph_s4_def is_valid_edge_def)

theorem endpoint_not_found_witness:
  "(9999::u32) \<noteq> 1 \<and> edge_meta graph_s4 9999 = None \<and> edge_meta graph_s4 1 \<noteq> None \<and>
   \<not> is_valid_edge graph_s4 9999 \<and> is_valid_edge graph_s4 1 \<and>
   query_classic graph_s4 9999 1 = Some (Returns \<lparr> distance = -1, path = [], reachable = False, error = ''Source edge not found'' \<rparr>) \<and>
   query_classic graph_s4 1 9999 = Some (Returns \<lparr> distance = -1, path = [], reachable = False, error = ''Target edge not found'' \<rparr>) \<and>
   query_unidirectional h3_library graph_s4 9999 1 = Some (Returns \<lparr> distance = -1, path = [], reachable = False, error = ''Source edge not found'' \<rparr>) \<and>
   query_unidirectional h3_library graph_s4 1 9999 = Some (Returns \<lparr> distance = -1, path = [], reachable = False, error = ''Target edge not found'' \<rparr>)"
proof -
  have ne: "(9999::u32) \<noteq> 1" "(1::u32) \<noteq> 9999" by simp_all
  show ?thesis
    using endpoint_not_found [OF ne(1), of graph_s4 h3_library]
      endpoint_not_found [OF ne(2), of graph_s4 h3_library] s4_meta
    by simp
qed

text \<open>
  Claim C3 as stated fails: every query function tests \<^verbatim>\<open>source_edge == target_edge\<close>
  first, so the self-query of an edge that is neither in \<open>edge_meta\<close> nor in CSR range is
  answered with \<open>reachable = True\<close>.
\<close>

theorem endpoint_not_found_counterexample:
  "edge_meta graph_s4 9999 = None \<and> \<not> is_valid_edge graph_s4 9999 \<and>
   query_classic graph_s4 9999 9999 =
     Some (Returns \<lparr> distance = 0, path = [9999], reachable = True, error = [] \<rparr>) \<and>
   query_unidirectional h3_library graph_s4 9999 9999 =
     Some (Returns \<lparr> distance = 0, path = [9999], reachable = True, error = [] \<rparr>)"
  by (simp add: query_classic_def query_unidirectional_def self_result_def get_edge_cost_def
      graph_s4_def is_valid_edge_def)

text \<open>
  Claim C8 at a failing input.  Edge 1 is loaded, yet \<^verbatim>\<open>query_multi\<close> seeded with edge 1
  on both sides reports no path: it has no test for a source that is also a target, and a
  meeting is only recorded when a relaxation reaches an edge the other side has seen.  The
  single-pair queries all answer \<open>(e, e)\<close> with the edge's own cost
  (\<open>self_query_single\<close> below).
\<close>

theorem self_query_multi_fails:
  "edge_meta graph_s4 1 = Some (mk_edge 1) \<and>
   query_multi graph_s4 [1] [0] [1] [0] =
     Some (Returns \<lparr> distance = -1, path = [], reachable = False, error = ''No path found'' \<rparr>)"
  by code_simp

lemma self_query_single:
  "query_classic g e e = Some (Returns \<lparr> distance = get_edge_cost g e, path = [e], reachable = True, error = [] \<rparr>)"
  "query_bidijkstra g e e = Some (Returns \<lparr> distance = get_edge_cost g e, path = [e], reachable = True, error = [] \<rparr>)"
  "query_pruned h g e e = Some (Returns \<lparr> distance = get_edge_cost g e, path = [e], reachable = True, error = [] \<rparr>)"
  "query_dijkstra g e e = Some (Returns \<lparr> distance = get_edge_cost g e, path = [e], reachable = True, error = [] \<rparr>)"
  "query_unidirectional h g e e = Some (Returns \<lparr> distance = get_edge_cost g e, path = [e], reachable = True, error = [] \<rparr>)"
  by (simp_all add: query_classic_def query_bidijkstra_def query_pruned_def query_dijkstra_def
      query_unidirectional_def self_result_def)

lemma multi_seed_bwd_keeps:
  "x \<in> set (pq_bwd st) \<Longrightarrow> x \<in> set (pq_bwd (multi_seed_bwd g t st))"
  by (simp add: multi_seed_bwd_def pq_push_def Let_def)

lemma fold_multi_seed_bwd_keeps:
  "x \<in> set (pq_bwd st) \<Longrightarrow> x \<in> set (pq_bwd (fold (multi_seed_bwd g) ts st))"
  by (induction ts arbitrary: st) (simp_all add: multi_seed_bwd_keeps)

lemma fold_multi_seed_bwd_key:
  "t \<in> set ts \<Longrightarrow> edge_meta g t \<noteq> None \<Longrightarrow>
   (get_edge_cost g t, t) \<in> set (pq_bwd (fold (multi_seed_bwd g) ts st))"
proof (induction ts arbitrary: st)
  case (Cons a ts)
  show ?case
  proof (cases "a = t")
    case True
    have "(get_edge_cost g t, t) \<in> set (pq_bwd (multi_seed_bwd g t st))"
      using Cons.prems(2) by (simp add: multi_seed_bwd_def pq_push_def Let_def)
    then show ?thesis using True by (simp add: fold_multi_seed_bwd_keeps)
  next
    case False
    then show ?thesis using Cons by simp
  qed
qed simp

lemma multi_seed_bwd_only:
  "(k, t) \<in> set (pq_bwd (multi_seed_bwd g a st)) \<Longrightarrow>
   (k, t) \<in> set (pq_bwd st) \<or> k = get_edge_cost g t"
  by (auto simp: multi_seed_bwd_def pq_push_def Let_def split: if_splits)

lemma fold_multi_seed_bwd_only:
  "(k, t) \<in> set (pq_bwd (fold (multi_seed_bwd g) ts st)) \<Longrightarrow>
   (k, t) \<in> set (pq_bwd st) \<or> k = get_edge_cost g t"
proof (induction ts arbitrary: st)
  case (Cons a ts)
  from Cons.IH [of "multi_seed_bwd g a st"] Cons.prems
  have "(k, t) \<in> set (pq_bwd (multi_seed_bwd g a st)) \<or> k = get_edge_cost g t" by simp
  then show ?case using multi_seed_bwd_only by blast
qed simp

text \<open>
  The seeds of the backward frontier.  \<^verbatim>\<open>query_classic\<close>, \<^verbatim>\<open>query_multi\<close> and
  \<^verbatim>\<open>query_bidijkstra\<close> all start it with key \<open>edge_cost(target)\<close> (in \<^verbatim>\<open>query_multi\<close>: every
  target with metadata, and only such keys), and the common tail returns \<^verbatim>\<open>best\<close> itself.
\<close>

lemma backward_seed:
  "pq_bwd (classic_init g s t) = [(get_edge_cost g t, t)] \<and>
   dist_bwd (classic_init g s t) t = Some (get_edge_cost g t) \<and>
   pq_bwd (bidijkstra_init g s t) = [(get_edge_cost g t, t)] \<and>
   dist_bwd (bidijkstra_init g s t) t = Some (get_edge_cost g t) \<and>
   (\<forall>k e. (k, e) \<in> set (pq_bwd (multi_init g srcs tgts)) \<longrightarrow> k = get_edge_cost g e) \<and>
   (\<forall>e \<in> set tgts. edge_meta g e \<noteq> None \<longrightarrow>
      (get_edge_cost g e, e) \<in> set (pq_bwd (multi_init g srcs tgts))) \<and>
   (\<forall>st r. found st \<and> bi_finish msg st = Some r \<longrightarrow> distance r = the_fin (best st))"
proof -
  have a: "pq_bwd (fold (multi_seed_fwd g) srcs st) = pq_bwd st" for st
    by (induction srcs arbitrary: st) (simp_all add: multi_seed_fwd_def)
  have "(k, e) \<in> set (pq_bwd (multi_init g srcs tgts)) \<Longrightarrow> k = get_edge_cost g e" for k e
    using fold_multi_seed_bwd_only [of k e g tgts "fold (multi_seed_fwd g) srcs empty_state"]
    by (simp add: multi_init_def a empty_state_def)
  moreover have "bi_finish msg st = Some r \<Longrightarrow> found st \<Longrightarrow> distance r = the_fin (best st)" for st r
    by (auto simp: bi_finish_def split: option.splits)
  ultimately show ?thesis
    by (auto simp: classic_init_def bidijkstra_init_def pq_push_def Let_def multi_init_def
        fold_multi_seed_bwd_key)
qed

text \<open>
  Claim C5 at a failing input.  The claim holds for \<^verbatim>\<open>query_classic\<close> and \<^verbatim>\<open>query_multi\<close>
  (\<open>backward_seed\<close> above).  For \<^verbatim>\<open>CSRGraph::query_bidijkstra\<close> it says the backward frontier
  starts at 0 and \<open>edge_cost(path[0])\<close> is added at the end, which is also what the comment
  above its last statement announces (\<^verbatim>\<open>Final cost: cost of first edge + sum of transitions\<close>)
  and what \<^verbatim>\<open>ShortcutGraph::query_bidijkstra\<close> does.  On the store with the shortcut
  \<open>(1, 2)\<close> of cost 10 and edge costs 1 and 2, the query from edge 1 to edge 2 starts the
  backward frontier at key 2 and returns \<open>10 + 2 = 12\<close> with path \<open>[1, 2]\<close>; the claim gives
  \<open>10 + edge_cost(1) = 11\<close>.
\<close>

theorem bidijkstra_final_cost:
  "get_edge_cost graph_du 1 = 1 \<and> get_edge_cost graph_du 2 = 2 \<and>
   find_shortcut_index graph_du 1 2 = Returns 0 \<and>
   sc_cost (shortcuts graph_du ! 0) = 10 \<and>
   pq_bwd (bidijkstra_init graph_du 1 2) = [(2, 2)] \<and>
   query_bidijkstra graph_du 1 2 =
     Some (Returns \<lparr> distance = 12, path = [1, 2], reachable = True, error = [] \<rparr>)"
  by code_simp

text \<open>
  The second definition of \<^verbatim>\<open>CSRGraph::query_unidirectional\<close>, in
  \<^verbatim>\<open>query_unidirectional_impl.cpp\<close>, prunes by a third set of rules.  Above the peak
  (\<open>u_res > high_res\<close>) \<open>inside = +1\<close> is always allowed and leaves the state unchanged, and
  \<open>inside = -1\<close> is allowed only while \<open>used_minus1\<close> is false, and sets it.  At or below the
  peak \<open>inside = -1\<close> is always allowed and leaves the state unchanged, and \<open>inside\<close> in
  \<open>{0, -2}\<close> is allowed while \<open>counter < 2\<close>, incrementing \<open>counter\<close> and leaving
  \<open>used_minus1\<close> as it is.
\<close>

lemma uni_impl_rules:
  "uni_impl_step u_res high_res counter used_minus1 sc =
     (if u_res > high_res
      then (if sc_inside sc = 1 then Some (counter, used_minus1)
            else if sc_inside sc = -1 \<and> \<not> used_minus1 then Some (counter, True)
            else None)
      else (if sc_inside sc = -1 then Some (counter, used_minus1)
            else if (sc_inside sc = 0 \<or> sc_inside sc = -2) \<and> counter < 2
            then Some (counter + 1, used_minus1)
            else None))"
  by (simp add: uni_impl_step_def)

text \<open>
  The rules of \<^verbatim>\<open>ShortcutGraph::query_unidirectional\<close>, the hash-map engine: above the peak
  \<open>inside = +1\<close> only while \<open>used_minus1\<close> is false and \<open>inside = -1\<close> only once it is true;
  at or below the peak, with \<open>used_minus1\<close> only \<open>inside = -1\<close>, otherwise a lateral
  shortcut while \<open>counter < 2\<close>, or \<open>inside = -1\<close>, both setting \<open>used_minus1\<close>.
\<close>

lemma uni_legacy_rules:
  "uni_legacy_step u_res high_res counter used_minus1 inside =
     (if u_res > high_res
      then (if (inside = 1 \<and> \<not> used_minus1) \<or> (inside = -1 \<and> used_minus1)
            then Some (counter, used_minus1) else None)
      else if used_minus1 then (if inside = -1 then Some (counter, used_minus1) else None)
      else if (inside = 0 \<or> inside = -2) \<and> counter < 2 then Some (counter + 1, True)
      else if inside = -1 then Some (counter, True)
      else None)"
  by (simp add: uni_legacy_step_def)
section \<open>The loader establishes the CSR invariants\<close>

lemma unat_of_nat32: "x < 2 ^ 32 \<Longrightarrow> unat (word_of_nat x :: u32) = x"
  by (simp add: unat_of_nat)

lemma ofold_append:
  "ofold f (xs @ ys) s = (case ofold f xs s of OutOfBounds \<Rightarrow> OutOfBounds | Returns s1 \<Rightarrow> ofold f ys s1)"
  by (induction xs arbitrary: s) (auto split: outcome.splits)

lemma ofold_invariant:
  assumes "ofold f xs s = Returns s'" "I 0 s"
    and "\<And>k a b. k < length xs \<Longrightarrow> I k a \<Longrightarrow> f (xs ! k) a = Returns b \<Longrightarrow> I (Suc k) b"
  shows "I (length xs) s'"
  using assms
proof (induction xs arbitrary: s I)
  case Nil
  then show ?case by simp
next
  case (Cons x xs)
  from Cons.prems(1) obtain s1 where s1: "f x s = Returns s1" and r: "ofold f xs s1 = Returns s'"
    by (auto split: outcome.splits)
  have a: "I (Suc 0) s1" using Cons.prems(3) [of 0 s s1] Cons.prems(2) s1 by simp
  have b: "I (Suc (Suc k)) b'" if "k < length xs" "I (Suc k) a'" "f (xs ! k) a' = Returns b'" for k a' b'
    using Cons.prems(3) [of "Suc k" a' b'] that by simp
  have "I (Suc (length xs)) s'"
    by (rule Cons.IH [where I = "\<lambda>k. I (Suc k)", OF r a b])
  then show ?case by simp
qed

subsection \<open>Counting\<close>

lemma count_loop:
  "ofold count_step keys c0 = Returns c \<Longrightarrow>
   length c = length c0 \<and> (\<forall>k \<in> set keys. unat k < length c0) \<and>
   (\<forall>i < length c0. c ! i = c0 ! i + word_of_nat (count_list (map unat keys) i))"
proof (induction keys arbitrary: c0)
  case Nil
  then show ?case by simp
next
  case (Cons k keys)
  from Cons.prems obtain c1 where c1: "count_step k c0 = Returns c1"
    and r: "ofold count_step keys c1 = Returns c"
    by (auto split: outcome.splits)
  from c1 have k: "unat k < length c0" and c1e: "c1 = c0[unat k := c0 ! unat k + 1]"
    by (auto simp: count_step_def split: if_splits)
  from Cons.IH [OF r] c1e have ih: "length c = length c0" "\<forall>k \<in> set keys. unat k < length c0"
    "\<forall>i < length c0. c ! i = c1 ! i + word_of_nat (count_list (map unat keys) i)"
    by auto
  show ?case using ih k c1e by (auto simp: nth_list_update)
qed

lemma sum_count_list:
  "(\<Sum>j < i. count_list xs j) = length (filter (\<lambda>x. x < i) xs)" for xs :: "nat list"
proof (induction i)
  case 0
  then show ?case by simp
next
  case (Suc i)
  have "length (filter (\<lambda>x. x < Suc i) xs) = length (filter (\<lambda>x. x < i) xs) + count_list xs i"
    by (induction xs) auto
  with Suc show ?case by simp
qed

subsection \<open>Prefix sums\<close>

lemma offsets_loop:
  "ofold (offset_step counts) [0 ..< N] (offs0, 0) = Returns (offs, tot) \<Longrightarrow>
   length offs = length offs0 \<and> N \<le> length offs0 \<and> N \<le> length counts \<and>
   (\<forall>i < N. offs ! i = sum_list (take i counts)) \<and>
   (\<forall>i. N \<le> i \<longrightarrow> i < length offs0 \<longrightarrow> offs ! i = offs0 ! i) \<and>
   tot = sum_list (take N counts)"
proof (induction N arbitrary: offs tot)
  case 0
  then show ?case by simp
next
  case (Suc N)
  from Suc.prems obtain o1 t1 where a: "ofold (offset_step counts) [0 ..< N] (offs0, 0) = Returns (o1, t1)"
    and b: "offset_step counts N (o1, t1) = Returns (offs, tot)"
    by (auto simp: ofold_append split: outcome.splits)
  note ih = Suc.IH [OF a]
  from b have N: "N < length o1" "N < length counts" and offs: "offs = o1[N := t1]"
    and tot: "tot = t1 + counts ! N"
    by (auto simp: offset_step_def split: if_splits)
  have "sum_list (take (Suc N) counts) = sum_list (take N counts) + counts ! N"
    using N by (simp add: take_Suc_conv_app_nth)
  then show ?case using ih N offs tot by (auto simp: nth_list_update less_Suc_eq)
qed

lemma sum_take_counts:
  assumes "\<forall>i < length c. c ! i = (word_of_nat (count_list xs i) :: u32)" "i \<le> length c"
  shows "sum_list (take i c) = word_of_nat (length (filter (\<lambda>x. x < i) xs))"
  using assms(2)
proof (induction i)
  case 0
  then show ?case by simp
next
  case (Suc i)
  then have "sum_list (take (Suc i) c) = sum_list (take i c) + c ! i"
    by (simp add: take_Suc_conv_app_nth)
  moreover have "length (filter (\<lambda>x. x < Suc i) xs) = length (filter (\<lambda>x. x < i) xs) + count_list xs i"
    by (induction xs) auto
  ultimately show ?case using Suc assms(1) by simp
qed

text \<open>What build_offsets computes, when it returns and m + 1 does not wrap.\<close>

lemma build_offsets_spec:
  assumes b: "build_offsets m counts = Returns offs"
    and c: "\<forall>i < length counts. counts ! i = word_of_nat (count_list xs i)"
    and len: "length counts = unat m + 1" and m1: "unat (m + 1) = unat m + 1"
    and xs: "\<forall>x \<in> set xs. x \<le> unat m"
  shows "length offs = unat m + 2 \<and>
         (\<forall>i \<le> unat m + 1. offs ! i = word_of_nat (length (filter (\<lambda>x. x < i) xs)))"
proof -
  from b obtain o1 t1 where
    a: "ofold (offset_step counts) [0 ..< Suc (unat m)] (replicate (unat (m + 2)) 0, 0) = Returns (o1, t1)"
    and st: "unat (m + 1) < length o1" and offs: "offs = o1[unat (m + 1) := t1]"
    by (auto simp: build_offsets_def split: outcome.splits if_splits)
  note l = offsets_loop [OF a]
  from l st m1 have u2: "unat m + 1 < unat (m + 2)" by simp
  have "unat (m + 2) \<le> unat m + 2"
  proof -
    have "unat (m + 2) = (unat m + 2) mod 2 ^ 32" by (simp add: unat_word_ariths)
    then show ?thesis by (metis mod_less_eq_dividend)
  qed
  with u2 have m2: "unat (m + 2) = unat m + 2" by simp
  have lo: "length offs = unat m + 2" using l offs m2 by simp
  have "offs ! i = word_of_nat (length (filter (\<lambda>x. x < i) xs))" if "i \<le> unat m + 1" for i
  proof (cases "i = unat m + 1")
    case True
    have "t1 = sum_list (take (Suc (unat m)) counts)" using l by simp
    also have "\<dots> = word_of_nat (length (filter (\<lambda>x. x < Suc (unat m)) xs))"
      using sum_take_counts [OF c, of "Suc (unat m)"] len by simp
    finally show ?thesis using True offs st m1 by simp
  next
    case False
    with that have i: "i < Suc (unat m)" by simp
    then have "offs ! i = o1 ! i" using offs m1 by simp
    also have "\<dots> = sum_list (take i counts)" using l i by simp
    also have "\<dots> = word_of_nat (length (filter (\<lambda>x. x < i) xs))"
      using sum_take_counts [OF c, of i] len i by simp
    finally show ?thesis .
  qed
  with lo show ?thesis by simp
qed

subsection \<open>Sorted keys\<close>

lemma sorted_unat: "sorted (xs :: u32 list) \<Longrightarrow> sorted (map unat xs)"
  by (induction xs) (auto simp: word_le_nat_alt)

lemma sorted_filter_less:
  "sorted xs \<Longrightarrow> filter (\<lambda>x. x < a) xs = takeWhile (\<lambda>x. x < a) xs" for xs :: "nat list"
proof (induction xs)
  case Nil
  then show ?case by simp
next
  case (Cons x xs)
  show ?case
  proof (cases "x < a")
    case True
    then show ?thesis using Cons by simp
  next
    case False
    then have "\<forall>y \<in> set xs. \<not> y < a" using Cons.prems by auto
    then have "filter (\<lambda>x. x < a) xs = []" by (simp add: filter_empty_conv)
    then show ?thesis using False by simp
  qed
qed

lemma sorted_index_range:
  fixes xs :: "nat list"
  assumes "sorted xs" "j < length xs"
  shows "length (filter (\<lambda>x. x < xs ! j) xs) \<le> j"
    and "j < length (filter (\<lambda>x. x < Suc (xs ! j)) xs)"
proof -
  let ?P = "\<lambda>x. x < xs ! j"
  show "length (filter ?P xs) \<le> j"
  proof (rule ccontr)
    assume "\<not> length (filter ?P xs) \<le> j"
    then have lt: "j < length (takeWhile ?P xs)" using sorted_filter_less [OF assms(1)] by simp
    then have "takeWhile ?P xs ! j = xs ! j" by (rule takeWhile_nth)
    moreover have "takeWhile ?P xs ! j \<in> set (takeWhile ?P xs)" using lt by simp
    ultimately have "?P (xs ! j)" using set_takeWhileD by metis
    then show False by simp
  qed
  let ?Q = "\<lambda>x. x < Suc (xs ! j)"
  have "\<And>i. i < Suc j \<Longrightarrow> ?Q (xs ! i)"
    using assms by (auto simp: sorted_iff_nth_mono less_Suc_eq_le)
  then have "Suc j \<le> length (takeWhile ?Q xs)"
    using assms(2) by (intro length_takeWhile_less_P_nth) auto
  then show "j < length (filter ?Q xs)" using sorted_filter_less [OF assms(1)] by simp
qed

lemma filter_less_mono:
  "a \<le> b \<Longrightarrow> length (filter (\<lambda>x. x < a) xs) \<le> length (filter (\<lambda>x. x < b) xs)" for xs :: "nat list"
  by (induction xs) auto

lemma sorted_range_key:
  fixes xs :: "nat list"
  assumes s: "sorted xs"
    and lo: "length (filter (\<lambda>x. x < u) xs) \<le> i" and hi: "i < length (filter (\<lambda>x. x < Suc u) xs)"
  shows "i < length xs \<and> xs ! i = u"
proof -
  have i: "i < length xs" by (rule less_le_trans [OF hi length_filter_le])
  note r = sorted_index_range [OF s i]
  have "xs ! i = u"
  proof (rule ccontr)
    assume ne: "xs ! i \<noteq> u"
    show False
    proof (cases "xs ! i < u")
      case True
      then have "length (filter (\<lambda>x. x < Suc (xs ! i)) xs) \<le> length (filter (\<lambda>x. x < u) xs)"
        by (intro filter_less_mono) simp
      with r(2) lo show False by simp
    next
      case False
      with ne have "Suc u \<le> xs ! i" by simp
      then have "length (filter (\<lambda>x. x < Suc u) xs) \<le> length (filter (\<lambda>x. x < xs ! i) xs)"
        by (rule filter_less_mono)
      with r(1) hi show False by simp
    qed
  qed
  with i show ?thesis by simp
qed

lemma sorted_filter_less_all: "sorted (map (\<lambda>i. length (filter (\<lambda>x. x < i) xs)) [0 ..< n])"
  for xs :: "nat list"
  by (auto simp: sorted_iff_nth_mono intro: filter_less_mono)

lemma fold_max_bound:
  fixes m0 :: u32
  shows "m0 \<le> fold (\<lambda>sc m. max (max m (f sc)) (h sc)) xs m0 \<and>
         (\<forall>x \<in> set xs. f x \<le> fold (\<lambda>sc m. max (max m (f sc)) (h sc)) xs m0 \<and>
                         h x \<le> fold (\<lambda>sc m. max (max m (f sc)) (h sc)) xs m0)"
proof (induction xs arbitrary: m0)
  case Nil
  then show ?case by simp
next
  case (Cons a xs)
  let ?m1 = "max (max m0 (f a)) (h a)"
  note ih = Cons.IH [of ?m1]
  have "m0 \<le> ?m1" "f a \<le> ?m1" "h a \<le> ?m1" by (auto simp: max_def)
  with ih show ?case by (auto intro: order_trans)
qed

subsection \<open>Backward indices\<close>

lemma below_Suc: "below ts (Suc v) = below ts v + cnt ts (length ts) v"
  unfolding below_def cnt_def by (induction ts) auto

lemma below_mono: "a \<le> b \<Longrightarrow> below ts a \<le> below ts b"
  unfolding below_def by (rule filter_less_mono)

lemma below_le: "below ts v \<le> length ts"
  unfolding below_def by (rule length_filter_le)

lemma cnt_Suc: "k < length ts \<Longrightarrow> cnt ts (Suc k) v = cnt ts k v + (if ts ! k = v then 1 else 0)"
  unfolding cnt_def by (simp add: take_Suc_conv_app_nth)

lemma cnt_mono: "k \<le> k' \<Longrightarrow> cnt ts k v \<le> cnt ts k' v"
proof (induction k' arbitrary: k)
  case 0
  then show ?case by simp
next
  case (Suc k')
  show ?case
  proof (cases "k = Suc k'")
    case True
    then show ?thesis by simp
  next
    case False
    with Suc.prems have le: "k \<le> k'" by simp
    have "cnt ts k' v \<le> cnt ts (Suc k') v"
    proof (cases "k' < length ts")
      case True
      then show ?thesis by (simp add: cnt_Suc)
    next
      case False
      then show ?thesis by (simp add: cnt_def)
    qed
    with Suc.IH [OF le] show ?thesis by simp
  qed
qed

lemma cnt_less_total: "k < length ts \<Longrightarrow> cnt ts k (ts ! k) < cnt ts (length ts) (ts ! k)"
proof -
  assume k: "k < length ts"
  then have "cnt ts (Suc k) (ts ! k) = cnt ts k (ts ! k) + 1" by (simp add: cnt_Suc)
  moreover have "cnt ts (Suc k) (ts ! k) \<le> cnt ts (length ts) (ts ! k)"
    using k by (intro cnt_mono) simp
  ultimately show ?thesis by simp
qed

lemma length_hits: "k \<le> length ts \<Longrightarrow> length (hits ts k v) = cnt ts k v"
proof (induction k)
  case 0
  then show ?case by (simp add: hits_def cnt_def)
next
  case (Suc k)
  then show ?case by (simp add: hits_def cnt_Suc)
qed

lemma hits_Suc: "hits ts (Suc k) v = hits ts k v @ (if ts ! k = v then [k] else [])"
  by (simp add: hits_def)

lemma hits_lt: "j \<in> set (hits ts k v) \<Longrightarrow> j < k"
  by (simp add: hits_def)

lemma map_nth_hits:
  "map (\<lambda>j. xs ! j) (filter (\<lambda>j. P (xs ! j)) [0 ..< length xs]) = filter P xs"
proof (induction xs rule: rev_induct)
  case Nil
  then show ?case by simp
next
  case (snoc x xs)
  have "map (\<lambda>j. (xs @ [x]) ! j) (filter (\<lambda>j. P ((xs @ [x]) ! j)) [0 ..< length xs])
        = map (\<lambda>j. xs ! j) (filter (\<lambda>j. P (xs ! j)) [0 ..< length xs])"
    by (intro map_cong filter_cong arg_cong [where f = "map _"]) (auto simp: nth_append)
  then show ?case using snoc by (simp add: nth_append)
qed

lemma fill_step_inv:
  assumes len: "length ts < 2 ^ 32" and k: "k < length ts" and M: "\<forall>x \<in> set ts. x \<le> M"
    and inv: "fill_inv M ts k (pos, idx)"
    and step: "fill_step (k, t) (pos, idx) = Returns (pos', idx')"
    and t: "unat t = ts ! k"
  shows "fill_inv M ts (Suc k) (pos', idx')"
proof -
  let ?v0 = "ts ! k"
  let ?w = "below ts ?v0 + cnt ts k ?v0"
  have v0: "?v0 \<le> M" using M k by simp
  from inv have lp: "length pos = M + 1" and li: "length idx = length ts"
    and P: "\<And>v. v \<le> M \<Longrightarrow> pos ! v = word_of_nat (below ts v + cnt ts k v)"
    and I: "\<And>v q. v \<le> M \<Longrightarrow> q < cnt ts k v \<Longrightarrow>
              idx ! (below ts v + q) = word_of_nat (hits ts k v ! q)"
    by (auto simp: fill_inv_def)
  have wlt: "?w < below ts (Suc ?v0)" using cnt_less_total [OF k] by (simp add: below_Suc)
  also have "\<dots> \<le> length ts" by (rule below_le)
  finally have wn: "?w < length ts" .
  have uw: "unat (pos ! ?v0) = ?w"
  proof -
    have "?w < 2 ^ 32" using wn len by (rule less_trans)
    then have "unat (word_of_nat ?w :: u32) = ?w" by (rule unat_of_nat32)
    then show ?thesis unfolding P [OF v0] .
  qed
  from step t uw have pos': "pos' = pos[?v0 := pos ! ?v0 + 1]"
    and idx': "idx' = idx[?w := word_of_nat k]"
    by (auto simp: fill_step_def Let_def split: if_splits)
  have c1: "cnt ts (Suc k) v = cnt ts k v + (if ?v0 = v then 1 else 0)" for v
    using k by (rule cnt_Suc)
  have disj: "below ts v + q \<noteq> ?w"
    if "q < cnt ts (Suc k) v" "v \<noteq> ?v0 \<or> q \<noteq> cnt ts k ?v0" for v q
  proof (cases "v = ?v0")
    case True
    with that show ?thesis by simp
  next
    case False
    then have q: "q < cnt ts k v" using that c1 [of v] by simp
    show ?thesis
    proof (cases "v < ?v0")
      case True
      have "below ts v + q < below ts v + cnt ts (length ts) v"
        using q cnt_mono [of k "length ts" ts v] k by simp
      also have "\<dots> = below ts (Suc v)" by (simp add: below_Suc)
      also have "\<dots> \<le> below ts ?v0" using True by (intro below_mono) simp
      finally show ?thesis by simp
    next
      case False
      with \<open>v \<noteq> ?v0\<close> have "Suc ?v0 \<le> v" by simp
      then have "below ts (Suc ?v0) \<le> below ts v" by (rule below_mono)
      with wlt show ?thesis by simp
    qed
  qed
  have A: "pos' ! v = word_of_nat (below ts v + cnt ts (Suc k) v)" if "v \<le> M" for v
  proof (cases "v = ?v0")
    case True
    then show ?thesis using pos' lp v0 P [OF v0] c1 [of v] by simp
  next
    case False
    then show ?thesis using pos' P [OF that] c1 [of v] by simp
  qed
  have B: "idx' ! (below ts v + q) = word_of_nat (hits ts (Suc k) v ! q)"
    if "v \<le> M" "q < cnt ts (Suc k) v" for v q
  proof (cases "v = ?v0 \<and> q = cnt ts k ?v0")
    case True
    have "hits ts (Suc k) ?v0 ! cnt ts k ?v0 = k"
      using length_hits [of k ts ?v0] k by (simp add: hits_Suc nth_append)
    then show ?thesis using True idx' li wn by simp
  next
    case False
    then have ne: "below ts v + q \<noteq> ?w" using disj [OF that(2)] by blast
    have q: "q < cnt ts k v" using False that(2) c1 [of v] by (auto split: if_splits)
    have "hits ts (Suc k) v ! q = hits ts k v ! q"
      using q length_hits [of k ts v] k by (simp add: hits_Suc nth_append)
    then show ?thesis using idx' ne I [OF that(1) q] by simp
  qed
  show ?thesis using A B lp li pos' idx' by (simp add: fill_inv_def)
qed

lemma fill_loop_inv:
  assumes len: "length T < 2 ^ 32" and M: "\<forall>x \<in> set T. unat x \<le> M"
    and start: "fill_inv M (map unat T) 0 st"
    and run: "ofold fill_step (zip [0 ..< length T] T) st = Returns st'"
  shows "fill_inv M (map unat T) (length T) st'"
proof -
  let ?ts = "map unat T"
  have "fill_inv M ?ts (length (zip [0 ..< length T] T)) st'"
  proof (rule ofold_invariant [OF run, where I = "fill_inv M ?ts"])
    show "fill_inv M ?ts 0 st" by (rule start)
  next
    fix k a b
    assume k: "k < length (zip [0 ..< length T] T)" and a: "fill_inv M ?ts k a"
      and st: "fill_step (zip [0 ..< length T] T ! k) a = Returns b"
    from k have k': "k < length T" by simp
    obtain pos idx where ae: "a = (pos, idx)" by (cases a)
    obtain pos' idx' where be: "b = (pos', idx')" by (cases b)
    have z: "zip [0 ..< length T] T ! k = (k, T ! k)" using k' by simp
    show "fill_inv M ?ts (Suc k) b"
      unfolding be
    proof (rule fill_step_inv [where t = "T ! k" and pos = pos and idx = idx])
      show "length ?ts < 2 ^ 32" using len by simp
      show "k < length ?ts" using k' by simp
      show "\<forall>x \<in> set ?ts. x \<le> M" using M by simp
      show "fill_inv M ?ts k (pos, idx)" using a ae by simp
      show "fill_step (k, T ! k) (pos, idx) = Returns (pos', idx')" using st z ae be by simp
      show "unat (T ! k) = ?ts ! k" using k' by simp
    qed
  qed
  then show ?thesis by simp
qed

lemma load_fresh_parts:
  assumes "load_shortcuts rows empty_graph = Returns (True, g)"
  shows "rows \<noteq> [] \<and>
    (\<exists>counts bcounts pos.
       ofold count_step (map t_from (sort_key t_from rows))
         (replicate (unat (fold (\<lambda>sc m. max (max m (t_from sc)) (t_to sc)) rows 0 + 1)) 0) = Returns counts \<and>
       build_offsets (fold (\<lambda>sc m. max (max m (t_from sc)) (t_to sc)) rows 0) counts = Returns (fwd_offsets g) \<and>
       ofold count_step (map sc_to (map to_csr (sort_key t_from rows))) (replicate (length counts) 0) = Returns bcounts \<and>
       build_offsets (fold (\<lambda>sc m. max (max m (t_from sc)) (t_to sc)) rows 0) bcounts = Returns (bwd_offsets g) \<and>
       ofold fill_step (zip [0 ..< length (map to_csr (sort_key t_from rows))] (map sc_to (map to_csr (sort_key t_from rows))))
         (butlast (bwd_offsets g), replicate (length rows) 0) = Returns (pos, bwd_indices g) \<and>
       shortcuts g = map to_csr (sort_key t_from rows) \<and>
       max_edge_id g = fold (\<lambda>sc m. max (max m (t_from sc)) (t_to sc)) rows 0)"
  using assms
  by (auto simp: load_shortcuts_def Let_def empty_graph_def resize_def split: if_splits outcome.splits)

lemma below_all: "\<forall>x \<in> set ts. x \<le> M \<Longrightarrow> below ts (Suc M) = length ts"
  unfolding below_def by (induction ts) auto

lemma unat_succ_pos: "0 < unat (m + 1) \<Longrightarrow> unat (m + 1) = unat m + 1" for m :: u32
proof -
  assume p: "0 < unat (m + 1)"
  have e: "unat (m + 1) = (unat m + 1) mod 2 ^ 32" by (simp add: unat_word_ariths)
  have "unat m < 2 ^ 32" using unsigned_less [of m] by simp
  then have "unat m + 1 < 2 ^ 32 \<or> unat m + 1 = 2 ^ 32" by linarith
  then show ?thesis
  proof
    assume "unat m + 1 < 2 ^ 32"
    then show ?thesis using e by simp
  next
    assume "unat m + 1 = 2 ^ 32"
    then have "unat (m + 1) = 0" using e by simp
    with p show ?thesis by simp
  qed
qed

lemma count_loop_zero:
  assumes "ofold count_step K (replicate n 0) = Returns counts"
  shows "length counts = n \<and> (\<forall>k \<in> set K. unat k < n) \<and>
         (\<forall>i < n. counts ! i = word_of_nat (count_list (map unat K) i))"
  using count_loop [OF assms] by simp

text \<open>The offsets a successful run computes for a list of keys.\<close>

lemma offsets_of_keys:
  fixes K :: "u32 list"
  assumes cnt: "ofold count_step K (replicate (unat m + 1) 0) = Returns counts"
    and bo: "build_offsets m counts = Returns offs"
    and m1: "unat (m + 1) = unat m + 1" and len: "length K < 2 ^ 32"
  shows "length offs = unat m + 2"
    and "\<forall>x \<in> set K. unat x \<le> unat m"
    and "\<forall>i \<le> unat m + 1. unat (offs ! i) = below (map unat K) i"
proof -
  note c = count_loop_zero [OF cnt]
  from c show K: "\<forall>x \<in> set K. unat x \<le> unat m" by auto
  have c1: "\<forall>i < length counts. counts ! i = word_of_nat (count_list (map unat K) i)"
    using c by simp
  have lc: "length counts = unat m + 1" using c by simp
  have xs: "\<forall>x \<in> set (map unat K). x \<le> unat m" using K by simp
  note b = build_offsets_spec [OF bo c1 lc m1 xs]
  from b show "length offs = unat m + 2" by simp
  show "\<forall>i \<le> unat m + 1. unat (offs ! i) = below (map unat K) i"
  proof (intro allI impI)
    fix i assume i: "i \<le> unat m + 1"
    have "below (map unat K) i \<le> length (map unat K)" by (rule below_le)
    then have "below (map unat K) i < 2 ^ 32" using len by simp
    then have "unat (word_of_nat (below (map unat K) i) :: u32) = below (map unat K) i"
      by (rule unat_of_nat32)
    moreover have "offs ! i = word_of_nat (below (map unat K) i)"
      using b i by (simp add: below_def)
    ultimately show "unat (offs ! i) = below (map unat K) i" by simp
  qed
qed

lemma map_eq_upt: "length xs = k \<Longrightarrow> (\<And>i. i < k \<Longrightarrow> f (xs ! i) = h i) \<Longrightarrow> map f xs = map h [0 ..< k]"
  by (auto intro: nth_equalityI)

lemma last_map_upt: "last (map h [0 ..< Suc k]) = h k"
  by simp

lemma upt_shift: "[a ..< a + n] = map (\<lambda>q. a + q) [0 ..< n]"
  by (induction n) auto

text \<open>
  Claim C6.  When \<open>load_shortcuts\<close>, called on a freshly constructed store with fewer than
  \<open>2^32\<close> rows, returns \<open>true\<close>, the store it leaves satisfies \<open>csr_consistent\<close>: every
  shortcut \<open>s\<close> sits at an index \<open>i\<close> with \<open>fwd_offsets[s.from] \<le> i < fwd_offsets[s.from + 1]\<close>
  and each forward range holds only shortcuts with that source; for every \<open>v\<close> the multiset
  of the shortcuts that \<open>bwd_indices\<close> names over \<open>[bwd_offsets[v], bwd_offsets[v + 1])\<close> is
  the multiset of the shortcuts with target \<open>v\<close>; both offset arrays are non-decreasing and
  their last value is the number of shortcuts.  The shortcuts stored are the rows read.
\<close>

theorem load_shortcuts_csr:
  assumes load: "load_shortcuts rows empty_graph = Returns (True, g)"
    and len: "length rows < 2 ^ 32"
  shows "csr_consistent g \<and> mset (shortcuts g) = mset (map to_csr rows)"
proof -
  define m where "m = fold (\<lambda>sc m. max (max m (t_from sc)) (t_to sc)) rows 0"
  define S where "S = sort_key t_from rows"
  define F where "F = map unat (map t_from S)"
  define T where "T = map sc_to (map to_csr S)"
  define T' where "T' = map unat T"
  define n where "n = length rows"
  from load_fresh_parts [OF load] obtain counts bcounts pos where
    ne: "rows \<noteq> []"
    and c1: "ofold count_step (map t_from S) (replicate (unat (m + 1)) 0) = Returns counts"
    and b1: "build_offsets m counts = Returns (fwd_offsets g)"
    and c2: "ofold count_step T (replicate (length counts) 0) = Returns bcounts"
    and b2: "build_offsets m bcounts = Returns (bwd_offsets g)"
    and fl: "ofold fill_step (zip [0 ..< length T] T) (butlast (bwd_offsets g), replicate n 0)
               = Returns (pos, bwd_indices g)"
    and sg: "shortcuts g = map to_csr S" and mg: "max_edge_id g = m"
    unfolding m_def S_def T_def n_def by auto
  have lS: "length S = n" "length T = n" "length F = n" "length T' = n"
    by (simp_all add: S_def T_def F_def T'_def n_def)
  have nlt: "n < 2 ^ 32" using len by (simp add: n_def)
  have Sne: "S \<noteq> []" using ne lS n_def by auto
  \<comment> \<open>no wrap-around of \<open>m + 1\<close>\<close>
  have "\<forall>k \<in> set (map t_from S). unat k < unat (m + 1)"
    using count_loop_zero [OF c1] by simp
  then have "0 < unat (m + 1)" using Sne by (cases S) auto
  then have m1: "unat (m + 1) = unat m + 1" by (rule unat_succ_pos)
  have lc: "length counts = unat m + 1" using count_loop_zero [OF c1] m1 by simp
  note fo = offsets_of_keys [OF c1 [unfolded m1] b1 m1, simplified, unfolded lS]
  note bo = offsets_of_keys [OF c2 [unfolded lc] b2 m1, unfolded lS, OF nlt]
  have fo1: "length (fwd_offsets g) = unat m + 2" using fo nlt by simp
  have fo2: "\<And>i. i \<le> unat m + 1 \<Longrightarrow> unat (fwd_offsets g ! i) = below F i"
    using fo nlt by (simp add: F_def)
  have Fm: "\<forall>x \<in> set F. x \<le> unat m" using fo nlt by (auto simp: F_def)
  have bo1: "length (bwd_offsets g) = unat m + 2" using bo by simp
  have bo2: "\<And>i. i \<le> unat m + 1 \<Longrightarrow> unat (bwd_offsets g ! i) = below T' i"
    using bo by (simp add: T'_def)
  have Tm: "\<forall>x \<in> set T. unat x \<le> unat m" using bo by simp
  have sF: "sorted F"
    unfolding F_def S_def by (intro sorted_unat) (simp add: sorted_sort_key)
  \<comment> \<open>the offset vectors as lists of counts\<close>
  define N where "N = unat m + 2"
  have NS: "N = Suc (Suc (unat m))" by (simp add: N_def)
  have foL: "map unat (fwd_offsets g) = map (below F) [0 ..< N]"
  proof (rule map_eq_upt)
    show "length (fwd_offsets g) = N" using fo1 by (simp add: N_def)
    show "unat (fwd_offsets g ! i) = below F i" if "i < N" for i
      using that fo2 [of i] by (simp add: N_def)
  qed
  have boL: "map unat (bwd_offsets g) = map (below T') [0 ..< N]"
  proof (rule map_eq_upt)
    show "length (bwd_offsets g) = N" using bo1 by (simp add: N_def)
    show "unat (bwd_offsets g ! i) = below T' i" if "i < N" for i
      using that bo2 [of i] by (simp add: N_def)
  qed
  have mono: "sorted (map (below ts) [0 ..< k])" for ts k
    unfolding below_def [abs_def] by (rule sorted_filter_less_all)
  have T'm: "\<forall>x \<in> set T'. x \<le> unat m" using Tm by (simp add: T'_def)
  have lastF: "last (map unat (fwd_offsets g)) = n"
    unfolding foL NS last_map_upt using below_all [OF Fm] lS by simp
  have lastB: "last (map unat (bwd_offsets g)) = n"
    unfolding boL NS last_map_upt using below_all [OF T'm] lS by simp
  have sfo: "sorted (map unat (fwd_offsets g))" unfolding foL by (rule mono)
  have sbo: "sorted (map unat (bwd_offsets g))" unfolding boL by (rule mono)
  \<comment> \<open>forward ranges\<close>
  have Fi: "F ! i = unat (sc_from (shortcuts g ! i))" if "i < n" for i
    using that lS by (simp add: F_def sg to_csr_def)
  have fwd1: "unat (sc_from (shortcuts g ! i)) \<le> unat m \<and>
      map unat (fwd_offsets g) ! unat (sc_from (shortcuts g ! i)) \<le> i \<and>
      i < map unat (fwd_offsets g) ! (unat (sc_from (shortcuts g ! i)) + 1)" if "i < n" for i
  proof -
    have u: "F ! i \<le> unat m" using Fm that lS by (metis nth_mem)
    from sorted_index_range [OF sF, of i] that lS
    have "below F (F ! i) \<le> i" "i < below F (Suc (F ! i))" by (simp_all add: below_def)
    then show ?thesis using u fo1 fo2 [of "F ! i"] fo2 [of "Suc (F ! i)"] Fi [OF that]
      by simp
  qed
  have fwd2: "i < n \<and> unat (sc_from (shortcuts g ! i)) = u"
    if "u \<le> unat m" "map unat (fwd_offsets g) ! u \<le> i" "i < map unat (fwd_offsets g) ! (u + 1)"
    for u i
  proof -
    have "below F u \<le> i" "i < below F (Suc u)"
      using that fo1 fo2 [of u] fo2 [of "Suc u"] by simp_all
    then have "i < length F \<and> F ! i = u"
      unfolding below_def by (intro sorted_range_key [OF sF])
    then show ?thesis using lS Fi [of i] by auto
  qed
  \<comment> \<open>backward indices\<close>
  have start: "fill_inv (unat m) T' 0 (butlast (bwd_offsets g), replicate n 0)"
  proof -
    have "butlast (bwd_offsets g) ! v = word_of_nat (below T' v)" if "v \<le> unat m" for v
    proof -
      have "butlast (bwd_offsets g) ! v = bwd_offsets g ! v"
        using that bo1 by (simp add: nth_butlast)
      moreover have "below T' v = unat (bwd_offsets g ! v)" using bo2 [of v] that by simp
      ultimately show ?thesis by simp
    qed
    then show ?thesis by (simp add: fill_inv_def bo1 lS cnt_def)
  qed
  have fin: "fill_inv (unat m) T' n (pos, bwd_indices g)"
    using fill_loop_inv [OF _ Tm, of "(butlast (bwd_offsets g), replicate n 0)" "(pos, bwd_indices g)"]
      start fl lS nlt by (simp add: T'_def)
  have li: "length (bwd_indices g) = n" using fin lS by (simp add: fill_inv_def)
  have bwd: "map (\<lambda>k. shortcuts g ! unat (bwd_indices g ! k))
               [map unat (bwd_offsets g) ! v ..< map unat (bwd_offsets g) ! (v + 1)]
             = filter (\<lambda>s. unat (sc_to s) = v) (shortcuts g)" if v: "v \<le> unat m" for v
  proof -
    let ?c = "cnt T' n v"
    have r: "map unat (bwd_offsets g) ! v = below T' v"
      "map unat (bwd_offsets g) ! (v + 1) = below T' v + ?c"
      using v bo1 bo2 [of v] bo2 [of "Suc v"] below_Suc [of T' v] lS by simp_all
    have lh: "length (hits T' n v) = ?c" using length_hits [of n T' v] lS by simp
    have e: "shortcuts g ! unat (bwd_indices g ! (below T' v + q)) = shortcuts g ! (hits T' n v ! q)"
      if q: "q < ?c" for q
    proof -
      have "bwd_indices g ! (below T' v + q) = word_of_nat (hits T' n v ! q)"
        using fin v q by (simp add: fill_inv_def)
      moreover have "hits T' n v ! q < n" using q lh by (intro hits_lt [of _ T' n v]) simp
      then have "unat (word_of_nat (hits T' n v ! q) :: u32) = hits T' n v ! q"
        using nlt by (intro unat_of_nat32) simp
      ultimately show ?thesis by simp
    qed
    have "map (\<lambda>k. shortcuts g ! unat (bwd_indices g ! k)) [below T' v ..< below T' v + ?c]
          = map (\<lambda>q. shortcuts g ! (hits T' n v ! q)) [0 ..< ?c]"
      unfolding upt_shift by (simp add: e)
    also have "\<dots> = map (\<lambda>j. shortcuts g ! j) (hits T' n v)"
      using lh by (intro nth_equalityI) simp_all
    also have "hits T' n v = filter (\<lambda>j. unat (sc_to (shortcuts g ! j)) = v) [0 ..< length (shortcuts g)]"
      unfolding hits_def using lS by (intro filter_cong) (auto simp: sg T'_def T_def)
    also have "map (\<lambda>j. shortcuts g ! j) \<dots> = filter (\<lambda>s. unat (sc_to s) = v) (shortcuts g)"
      by (rule map_nth_hits)
    finally show ?thesis unfolding r .
  qed
  have ls: "length (shortcuts g) = n" using sg lS by simp
  have bwdm: "mset (map (\<lambda>k. shortcuts g ! unat (bwd_indices g ! k))
               [map unat (bwd_offsets g) ! v ..< map unat (bwd_offsets g) ! (v + 1)])
             = mset (filter (\<lambda>s. unat (sc_to s) = v) (shortcuts g))" if "v \<le> unat m" for v
    using bwd [OF that] by (rule arg_cong)
  have l1: "length (map unat (fwd_offsets g)) = unat m + 2"
    and l2: "length (map unat (bwd_offsets g)) = unat m + 2"
    using fo1 bo1 by simp_all
  have "csr_consistent g"
    unfolding csr_consistent_def Let_def mg ls
    using l1 l2 li fwd1 fwd2 bwdm sfo sbo lastF lastB by blast
  moreover have "mset (shortcuts g) = mset (map to_csr rows)"
    unfolding sg S_def by simp
  ultimately show ?thesis by simp
qed

text \<open>Five rows with repeated sources and targets, loaded into a fresh store, step by step.\<close>

lemma rows_l5_max: "fold (\<lambda>sc m. max (max m (t_from sc)) (t_to sc)) rows_l5 0 = 4"
  by code_simp

lemma rows_l5_counts:
  "ofold count_step (map t_from (sort_key t_from rows_l5)) (replicate (unat (4 + 1 :: u32)) 0)
     = Returns [0, 2, 1, 2, 0]"
  by code_simp

lemma rows_l5_fwd: "build_offsets 4 [0, 2, 1, 2, 0] = Returns [0, 0, 2, 3, 5, 5]"
  by code_simp

lemma rows_l5_sorted:
  "shortcuts empty_graph @ map to_csr (sort_key t_from rows_l5) = shortcuts graph_l5"
  by code_simp

lemma rows_l5_bcounts:
  "ofold count_step (map sc_to (shortcuts graph_l5)) (replicate (length [0, 2, 1, 2, 0 :: u32]) 0)
     = Returns [0, 1, 1, 2, 1]"
  by code_simp

lemma rows_l5_bwd: "build_offsets 4 [0, 1, 1, 2, 1] = Returns [0, 0, 1, 2, 4, 5]"
  by code_simp

lemma rows_l5_fill:
  "ofold fill_step (zip [0 ..< length (shortcuts graph_l5)] (map sc_to (shortcuts graph_l5)))
     (butlast [0, 0, 1, 2, 4, 5], resize (bwd_indices empty_graph) (length (shortcuts graph_l5)))
     = Returns ([0, 1, 2, 4, 5], [3, 0, 1, 2, 4])"
  by code_simp

lemma rows_l5_ne: "rows_l5 \<noteq> []"
  by (simp add: rows_l5_def)

lemma load_rows_l5: "load_shortcuts rows_l5 empty_graph = Returns (True, graph_l5)"
  apply (simp only: load_shortcuts_def Let_def rows_l5_max rows_l5_counts rows_l5_sorted
      rows_l5_fwd rows_l5_bcounts rows_l5_bwd rows_l5_fill outcome.case prod.case rows_l5_ne
      if_False list.distinct)
  apply (simp add: empty_graph_def graph_l5_def)
  done

theorem load_shortcuts_csr_witness:
  "load_shortcuts rows_l5 empty_graph = Returns (True, graph_l5) \<and>
   length rows_l5 < 2 ^ 32 \<and>
   csr_consistent graph_l5 \<and>
   mset (shortcuts graph_l5) = mset (map to_csr rows_l5)"
proof -
  have n: "length rows_l5 < 2 ^ 32"
    by (simp add: rows_l5_def)
  show ?thesis
    using load_shortcuts_csr [OF load_rows_l5 n] load_rows_l5 n by simp
qed
section \<open>The returned distance is the cost of the returned path\<close>

subsection \<open>Priority queue\<close>

lemma pq_least_in: "pq_least m xs = m \<or> pq_least m xs \<in> set xs"
proof (induction xs arbitrary: m)
  case Nil then show ?case by simp
next
  case (Cons a xs)
  show ?case using Cons [of "if fst a < fst m then a else m"] by (auto split: if_splits)
qed

lemma pq_least_le: "fst (pq_least m xs) \<le> fst m \<and> (\<forall>x \<in> set xs. fst (pq_least m xs) \<le> fst x)"
proof (induction xs arbitrary: m)
  case Nil then show ?case by simp
next
  case (Cons a xs)
  show ?case using Cons [of "if fst a < fst m then a else m"] by (auto split: if_splits)
qed

lemma pq_top_in: "pq_top pq = Some e \<Longrightarrow> e \<in> set pq"
proof (cases pq)
  case Nil then show "pq_top pq = Some e \<Longrightarrow> e \<in> set pq" by simp
next
  case (Cons a xs)
  assume "pq_top pq = Some e"
  then have "e = pq_least a xs" using Cons by simp
  then show "e \<in> set pq" using pq_least_in [of a xs] Cons by auto
qed

lemma pq_top_le: "pq_top pq = Some e \<Longrightarrow> x \<in> set pq \<Longrightarrow> fst e \<le> fst x"
proof (cases pq)
  case Nil then show "pq_top pq = Some e \<Longrightarrow> x \<in> set pq \<Longrightarrow> fst e \<le> fst x" by simp
next
  case (Cons a xs)
  assume "pq_top pq = Some e" and x: "x \<in> set pq"
  then have "e = pq_least a xs" using Cons by simp
  then show "fst e \<le> fst x" using pq_least_le [of a xs] Cons x by auto
qed

lemma pq_pop_subset: "e \<in> set (pq_pop pq) \<Longrightarrow> e \<in> set pq"
  unfolding pq_pop_def using set_remove1_subset [of _ pq] by (cases "pq_top pq") auto

lemma pq_top_None: "pq_top pq = None \<longleftrightarrow> pq = []"
  by (cases pq) auto

subsection \<open>One side\<close>

lemma side_invI:
  assumes "D rt = Some r0" "P rt = Some rt" "r0 \<le> L"
    and "\<And>e. e \<in> set Q \<Longrightarrow> L \<le> fst e \<and> (\<exists>x. D (snd e) = Some x \<and> x \<le> fst e)"
    and "\<And>v. D v = None \<longleftrightarrow> P v = None"
    and "\<And>v p. P v = Some p \<Longrightarrow> p \<noteq> v \<Longrightarrow>
           \<exists>c fp. lnk p v c \<and> D p = Some fp \<and> D v = Some (fp + c) \<and> fp \<le> L"
    and "\<And>v. P v = Some v \<Longrightarrow> v = rt"
  shows "side_inv lnk rt r0 L (D, P, Q)"
  unfolding side_inv_def prod.case using assms by blast

lemma side_invD:
  assumes "side_inv lnk rt r0 L (D, P, Q)"
  shows "D rt = Some r0" "P rt = Some rt" "r0 \<le> L"
    and "\<And>e. e \<in> set Q \<Longrightarrow> L \<le> fst e \<and> (\<exists>x. D (snd e) = Some x \<and> x \<le> fst e)"
    and "\<And>v. D v = None \<longleftrightarrow> P v = None"
    and "\<And>v p. P v = Some p \<Longrightarrow> p \<noteq> v \<Longrightarrow>
           \<exists>c fp. lnk p v c \<and> D p = Some fp \<and> D v = Some (fp + c) \<and> fp \<le> L"
    and "\<And>v. P v = Some v \<Longrightarrow> v = rt"
  using assms unfolding side_inv_def prod.case by blast+

lemma side_inv_pop:
  assumes inv: "side_inv lnk rt r0 L (D, P, Q)" and top: "pq_top Q = Some (d, u)"
  shows "side_inv lnk rt r0 d (D, P, pq_pop Q) \<and> L \<le> d \<and> (\<exists>x. D u = Some x \<and> x \<le> d)"
proof -
  note I = side_invD [OF inv]
  have in_q: "(d, u) \<in> set Q" using top by (rule pq_top_in)
  have Ld: "L \<le> d" and Du: "\<exists>x. D u = Some x \<and> x \<le> d"
    using I(4) [OF in_q] by simp_all
  have sub: "\<And>e. e \<in> set (pq_pop Q) \<Longrightarrow> e \<in> set Q" by (rule pq_pop_subset)
  have le: "\<And>e. e \<in> set (pq_pop Q) \<Longrightarrow> d \<le> fst e"
    using pq_top_le [OF top sub] by simp
  have "side_inv lnk rt r0 d (D, P, pq_pop Q)"
  proof (rule side_invI)
    show "D rt = Some r0" "P rt = Some rt" by (rule I)+
    show "r0 \<le> d" using I(3) Ld by simp
    show "d \<le> fst e \<and> (\<exists>x. D (snd e) = Some x \<and> x \<le> fst e)" if "e \<in> set (pq_pop Q)" for e
      using le [OF that] I(4) [OF sub [OF that]] by simp
    show "D v = None \<longleftrightarrow> P v = None" for v using I(5) .
    show "\<exists>c fp. lnk p v c \<and> D p = Some fp \<and> D v = Some (fp + c) \<and> fp \<le> d"
      if pv: "P v = Some p" "p \<noteq> v" for v p
    proof -
      obtain c fp where "lnk p v c" "D p = Some fp" "D v = Some (fp + c)" "fp \<le> L"
        using I(6) [OF pv] by blast
      then show ?thesis using Ld by auto
    qed
    show "v = rt" if "P v = Some v" for v using I(7) [OF that] .
  qed
  then show ?thesis using Ld Du by simp
qed

lemma side_inv_relax:
  assumes inv: "side_inv lnk rt r0 d (D, P, Q)" and Du: "D u = Some d"
    and l: "lnk u v c" and c: "0 \<le> c"
  shows "side_inv lnk rt r0 d (relax_side d u v c (D, P, Q)) \<and>
         fst (relax_side d u v c (D, P, Q)) u = Some d"
proof (cases "case D v of None \<Rightarrow> True | Some x \<Rightarrow> d + c < x")
  case False
  then show ?thesis using inv Du unfolding relax_side_def by simp
next
  case True
  note I = side_invD [OF inv]
  have lt: "d + c < x" if "D v = Some x" for x
    using True that by simp
  have small: "d < x" if "D v = Some x" for x
    using lt [OF that] c by simp
  have v_root: "v \<noteq> rt" using small [of r0] I(1,3) by auto
  have v_u: "v \<noteq> u" using small [of d] Du by auto
  have v_par: "p \<noteq> v" if pw: "P w = Some p" "p \<noteq> w" for w p
  proof
    assume "p = v"
    obtain c' fp where "D p = Some fp" "fp \<le> d" using I(6) [OF pw] by blast
    then show False using small [of fp] \<open>p = v\<close> by simp
  qed
  define D' where "D' = D(v \<mapsto> d + c)"
  define P' where "P' = P(v \<mapsto> u)"
  define Q' where "Q' = pq_push (d + c, v) Q"
  have eq: "relax_side d u v c (D, P, Q) = (D', P', Q')"
    using True unfolding relax_side_def D'_def P'_def Q'_def by simp
  have "side_inv lnk rt r0 d (D', P', Q')"
  proof (rule side_invI)
    show "D' rt = Some r0" "P' rt = Some rt"
      using I(1,2) v_root unfolding D'_def P'_def by simp_all
    show "r0 \<le> d" by (rule I)
    show "d \<le> fst e \<and> (\<exists>x. D' (snd e) = Some x \<and> x \<le> fst e)" if e: "e \<in> set Q'" for e
    proof -
      consider "e = (d + c, v)" | "e \<in> set Q" using e unfolding Q'_def pq_push_def by auto
      then show ?thesis
      proof cases
        case 1 then show ?thesis using c unfolding D'_def by simp
      next
        case 2
        obtain x where x: "D (snd e) = Some x" "x \<le> fst e" "d \<le> fst e" using I(4) [OF 2] by blast
        show ?thesis
        proof (cases "snd e = v")
          case True
          then show ?thesis using x lt [of x] unfolding D'_def by simp
        next
          case False then show ?thesis using x unfolding D'_def by simp
        qed
      qed
    qed
    show "D' w = None \<longleftrightarrow> P' w = None" for w
      using I(5) [of w] unfolding D'_def P'_def by simp
    show "\<exists>c fp. lnk p w c \<and> D' p = Some fp \<and> D' w = Some (fp + c) \<and> fp \<le> d"
      if a: "P' w = Some p" "p \<noteq> w" for w p
    proof (cases "w = v")
      case True
      then have "p = u" using a unfolding P'_def by simp
      then show ?thesis using True l Du v_u unfolding D'_def by auto
    next
      case False
      then have pw: "P w = Some p" using a unfolding P'_def by simp
      have pv: "p \<noteq> v" using v_par [OF pw a(2)] .
      obtain c' fp where "lnk p w c'" "D p = Some fp" "D w = Some (fp + c')" "fp \<le> d"
        using I(6) [OF pw a(2)] by blast
      then show ?thesis using pv False unfolding D'_def by auto
    qed
    show "w = rt" if "P' w = Some w" for w
      using that I(7) [of w] v_u unfolding P'_def by (simp split: if_splits)
  qed
  moreover have "D' u = Some d" using Du v_u unfolding D'_def by simp
  ultimately show ?thesis unfolding eq by simp
qed

lemma fold_inv: "(\<And>x s. x \<in> set xs \<Longrightarrow> I s \<Longrightarrow> I (f x s)) \<Longrightarrow> I s \<Longrightarrow> I (fold f xs s)"
  by (induction xs arbitrary: s) auto

lemma relax_fwd_sides:
  "fwd_side (relax_fwd d u sc st) = relax_side d u (sc_to sc) (sc_cost sc) (fwd_side st)"
  "bwd_side (relax_fwd d u sc st) = bwd_side st"
  unfolding relax_fwd_def relax_side_def fwd_side_def bwd_side_def Let_def
  by (simp_all split: option.splits)

lemma relax_bwd_sides:
  "bwd_side (relax_bwd d u sc st) = relax_side d u (sc_from sc) (sc_cost sc) (bwd_side st)"
  "fwd_side (relax_bwd d u sc st) = fwd_side st"
  unfolding relax_bwd_def relax_side_def fwd_side_def bwd_side_def Let_def
  by (simp_all split: option.splits)

lemma xless_Fin: "xless (Fin a) x \<longleftrightarrow> (case x of Fin b \<Rightarrow> a < b | PInf \<Rightarrow> True)"
  by (cases x) auto

lemma relax_fwd_meet:
  assumes "meet_inv st"
  shows "meet_inv (relax_fwd d u sc st)"
proof -
  define v where "v = sc_to sc"
  define nd where "nd = d + sc_cost sc"
  show ?thesis
  proof (cases "case dist_fwd st v of None \<Rightarrow> True | Some x \<Rightarrow> nd < x")
    case False
    then show ?thesis using assms unfolding relax_fwd_def Let_def v_def nd_def by simp
  next
    case upd: True
    show ?thesis
    proof (cases "dist_bwd st v")
      case None
      have "meeting st \<noteq> v" if "found st"
        using assms that None unfolding meet_inv_def by auto
      then show ?thesis using assms upd None
        unfolding relax_fwd_def Let_def v_def [symmetric] nd_def [symmetric] meet_inv_def
        by auto
    next
      case (Some b)
      show ?thesis
      proof (cases "xless (Fin (nd + b)) (best st)")
        case True
        then show ?thesis using upd Some
          unfolding relax_fwd_def Let_def v_def [symmetric] nd_def [symmetric] meet_inv_def
          by simp
      next
        case False
        have "meeting st \<noteq> v" if f: "found st"
        proof
          assume m: "meeting st = v"
          obtain x b' where x: "dist_fwd st v = Some x" "dist_bwd st v = Some b'" "best st = Fin (x + b')"
            using assms f m unfolding meet_inv_def by auto
          have "nd < x" using upd x by simp
          then show False using False x Some by simp
        qed
        then show ?thesis using assms upd Some False
          unfolding relax_fwd_def Let_def v_def [symmetric] nd_def [symmetric] meet_inv_def
          by auto
      qed
    qed
  qed
qed

lemma relax_bwd_meet:
  assumes "meet_inv st"
  shows "meet_inv (relax_bwd d u sc st)"
proof -
  define v where "v = sc_from sc"
  define nd where "nd = d + sc_cost sc"
  show ?thesis
  proof (cases "case dist_bwd st v of None \<Rightarrow> True | Some x \<Rightarrow> nd < x")
    case False
    then show ?thesis using assms unfolding relax_bwd_def Let_def v_def nd_def by simp
  next
    case upd: True
    show ?thesis
    proof (cases "dist_fwd st v")
      case None
      have "meeting st \<noteq> v" if "found st"
        using assms that None unfolding meet_inv_def by auto
      then show ?thesis using assms upd None
        unfolding relax_bwd_def Let_def v_def [symmetric] nd_def [symmetric] meet_inv_def
        by auto
    next
      case (Some f)
      show ?thesis
      proof (cases "xless (Fin (f + nd)) (best st)")
        case True
        then show ?thesis using upd Some
          unfolding relax_bwd_def Let_def v_def [symmetric] nd_def [symmetric] meet_inv_def
          by simp
      next
        case False
        have "meeting st \<noteq> v" if fo: "found st"
        proof
          assume m: "meeting st = v"
          obtain f' x where x: "dist_fwd st v = Some f'" "dist_bwd st v = Some x" "best st = Fin (f' + x)"
            using assms fo m unfolding meet_inv_def by auto
          have "nd < x" using upd x by simp
          then show False using False x Some by simp
        qed
        then show ?thesis using assms upd Some False
          unfolding relax_bwd_def Let_def v_def [symmetric] nd_def [symmetric] meet_inv_def
          by auto
      qed
    qed
  qed
qed

lemma fwd_neighbours_in:
  assumes "fwd_neighbours g u = Returns scs" "sc \<in> set scs"
  shows "sc \<in> scanned_fwd g u" "sc \<in> set (shortcuts g)"
proof -
  show "sc \<in> scanned_fwd g u" using assms unfolding scanned_fwd_def by simp
  show "sc \<in> set (shortcuts g)"
    using assms unfolding fwd_neighbours_def
    by (auto split: outcome.splits prod.splits)
qed

lemma bwd_neighbours_in:
  assumes "bwd_neighbours g u = Returns scs" "sc \<in> set scs"
  shows "sc \<in> scanned_bwd g u" "sc \<in> set (shortcuts g)"
proof -
  show "sc \<in> scanned_bwd g u" using assms unfolding scanned_bwd_def by simp
  show "sc \<in> set (shortcuts g)"
    using assms unfolding bwd_neighbours_def
    by (auto split: outcome.splits prod.splits)
qed

lemma nonneg_costsD: "nonneg_costs g \<Longrightarrow> sc \<in> set (shortcuts g) \<Longrightarrow> 0 \<le> sc_cost sc"
  unfolding nonneg_costs_def list_all_iff by blast

lemma fwd_scan_relax:
  assumes inv: "fwd_scan_inv g s t d u st" and sc: "sc \<in> scanned_fwd g u" and c: "0 \<le> sc_cost sc"
  shows "fwd_scan_inv g s t d u (relax_fwd d u sc st)"
proof -
  have l: "link_fwd g u (sc_to sc) (sc_cost sc)" using sc unfolding link_fwd_def by blast
  have a: "side_inv (link_fwd g) s 0 d (dist_fwd st, parent_fwd st, pq_fwd st)"
    and Du: "dist_fwd st u = Some d"
    using inv unfolding fwd_scan_inv_def fwd_side_def by simp_all
  have r: "side_inv (link_fwd g) s 0 d (fwd_side (relax_fwd d u sc st)) \<and>
        fst (fwd_side (relax_fwd d u sc st)) u = Some d"
    unfolding relax_fwd_sides using side_inv_relax [OF a Du l c] unfolding fwd_side_def by simp
  have "fst (fwd_side (relax_fwd d u sc st)) = dist_fwd (relax_fwd d u sc st)"
    unfolding fwd_side_def by simp
  then show ?thesis
    using r inv relax_fwd_meet [of st d u sc]
    unfolding fwd_scan_inv_def relax_fwd_sides(2) by simp
qed

lemma bwd_scan_relax:
  assumes inv: "bwd_scan_inv g s t d u st" and sc: "sc \<in> scanned_bwd g u" and c: "0 \<le> sc_cost sc"
  shows "bwd_scan_inv g s t d u (relax_bwd d u sc st)"
proof -
  have l: "(\<lambda>p v c. link_bwd g v p c) u (sc_from sc) (sc_cost sc)"
    using sc unfolding link_bwd_def by blast
  have a: "side_inv (\<lambda>p v c. link_bwd g v p c) t (get_edge_cost g t) d
             (dist_bwd st, parent_bwd st, pq_bwd st)"
    and Du: "dist_bwd st u = Some d"
    using inv unfolding bwd_scan_inv_def bwd_side_def by simp_all
  have r: "side_inv (\<lambda>p v c. link_bwd g v p c) t (get_edge_cost g t) d
             (bwd_side (relax_bwd d u sc st)) \<and>
        fst (bwd_side (relax_bwd d u sc st)) u = Some d"
    unfolding relax_bwd_sides
    using side_inv_relax [of "\<lambda>p v c. link_bwd g v p c", OF a Du l c] unfolding bwd_side_def by simp
  have "fst (bwd_side (relax_bwd d u sc st)) = dist_bwd (relax_bwd d u sc st)"
    unfolding bwd_side_def by simp
  then show ?thesis
    using r inv relax_bwd_meet [of st d u sc]
    unfolding bwd_scan_inv_def relax_bwd_sides(2) by simp
qed

lemma fwd_scan_done: "fwd_scan_inv g s t d u st \<Longrightarrow> classic_inv g s t st"
  unfolding fwd_scan_inv_def classic_inv_def by blast

lemma bwd_scan_done: "bwd_scan_inv g s t d u st \<Longrightarrow> classic_inv g s t st"
  unfolding bwd_scan_inv_def classic_inv_def by blast

text \<open>Popping the forward queue.\<close>

lemma fwd_pop:
  assumes inv: "classic_inv g s t st" and top: "pq_top (pq_fwd st) = Some (d, u)"
  shows "classic_inv g s t (st\<lparr>pq_fwd := pq_pop (pq_fwd st)\<rparr>)"
    and "\<exists>x. dist_fwd st u = Some x \<and> x \<le> d"
    and "dist_fwd st u = Some d \<Longrightarrow> fwd_scan_inv g s t d u (st\<lparr>pq_fwd := pq_pop (pq_fwd st)\<rparr>)"
proof -
  obtain Lf where a: "side_inv (link_fwd g) s 0 Lf (dist_fwd st, parent_fwd st, pq_fwd st)"
    using inv unfolding classic_inv_def fwd_side_def by blast
  note p = side_inv_pop [OF a top]
  have b: "bwd_side (st\<lparr>pq_fwd := pq_pop (pq_fwd st)\<rparr>) = bwd_side st"
    unfolding bwd_side_def by simp
  have f: "fwd_side (st\<lparr>pq_fwd := pq_pop (pq_fwd st)\<rparr>) = (dist_fwd st, parent_fwd st, pq_pop (pq_fwd st))"
    unfolding fwd_side_def by simp
  have m: "meet_inv (st\<lparr>pq_fwd := pq_pop (pq_fwd st)\<rparr>) = meet_inv st"
    unfolding meet_inv_def by simp
  show "classic_inv g s t (st\<lparr>pq_fwd := pq_pop (pq_fwd st)\<rparr>)"
    using inv p unfolding classic_inv_def b f m by blast
  show "\<exists>x. dist_fwd st u = Some x \<and> x \<le> d" using p by simp
  show "fwd_scan_inv g s t d u (st\<lparr>pq_fwd := pq_pop (pq_fwd st)\<rparr>)" if "dist_fwd st u = Some d"
    using inv p that unfolding classic_inv_def fwd_scan_inv_def b f m by simp
qed

lemma bwd_pop:
  assumes inv: "classic_inv g s t st" and top: "pq_top (pq_bwd st) = Some (d, u)"
  shows "classic_inv g s t (st\<lparr>pq_bwd := pq_pop (pq_bwd st)\<rparr>)"
    and "\<exists>x. dist_bwd st u = Some x \<and> x \<le> d"
    and "dist_bwd st u = Some d \<Longrightarrow> bwd_scan_inv g s t d u (st\<lparr>pq_bwd := pq_pop (pq_bwd st)\<rparr>)"
proof -
  obtain Lb where a: "side_inv (\<lambda>p v c. link_bwd g v p c) t (get_edge_cost g t) Lb
       (dist_bwd st, parent_bwd st, pq_bwd st)"
    using inv unfolding classic_inv_def bwd_side_def by blast
  note p = side_inv_pop [OF a top]
  have b: "fwd_side (st\<lparr>pq_bwd := pq_pop (pq_bwd st)\<rparr>) = fwd_side st"
    unfolding fwd_side_def by simp
  have f: "bwd_side (st\<lparr>pq_bwd := pq_pop (pq_bwd st)\<rparr>) = (dist_bwd st, parent_bwd st, pq_pop (pq_bwd st))"
    unfolding bwd_side_def by simp
  have m: "meet_inv (st\<lparr>pq_bwd := pq_pop (pq_bwd st)\<rparr>) = meet_inv st"
    unfolding meet_inv_def by simp
  show "classic_inv g s t (st\<lparr>pq_bwd := pq_pop (pq_bwd st)\<rparr>)"
    using inv p unfolding classic_inv_def b f m by blast
  show "\<exists>x. dist_bwd st u = Some x \<and> x \<le> d" using p by simp
  show "bwd_scan_inv g s t d u (st\<lparr>pq_bwd := pq_pop (pq_bwd st)\<rparr>)" if "dist_bwd st u = Some d"
    using inv p that unfolding classic_inv_def bwd_scan_inv_def b f m by simp
qed

lemma classic_fwd_step_inv:
  assumes step: "classic_fwd_step g st = Returns (st', skip)"
    and inv: "classic_inv g s t st" and nn: "nonneg_costs g"
  shows "classic_inv g s t st'"
proof (cases "pq_top (pq_fwd st)")
  case None
  then show ?thesis using step inv unfolding classic_fwd_step_def by simp
next
  case (Some e)
  obtain d u where e: "e = (d, u)" by (cases e)
  have top: "pq_top (pq_fwd st) = Some (d, u)" using Some e by simp
  define st1 where "st1 = st\<lparr>pq_fwd := pq_pop (pq_fwd st)\<rparr>"
  note p = fwd_pop [OF inv top, folded st1_def]
  obtain x where x: "dist_fwd st u = Some x" "x \<le> d" using p(2) by blast
  have x1: "dist_fwd st1 u = Some x" using x unfolding st1_def by simp
  show ?thesis
  proof (cases "d > x \<or> \<not> xless (Fin d) (best st1)")
    case True
    then have "st' = st1"
      using step top x1 unfolding classic_fwd_step_def st1_def [symmetric] Let_def
      by (auto split: if_splits)
    then show ?thesis using p(1) by simp
  next
    case False
    then have xd: "x = d" using x by simp
    obtain scs where n: "fwd_neighbours g u = Returns scs"
      using step top x1 False unfolding classic_fwd_step_def st1_def [symmetric] Let_def
      by (cases "fwd_neighbours g u") (auto split: if_splits)
    have st': "st' = fold (\<lambda>sc s. if sc_inside sc \<noteq> 1 then s else relax_fwd d u sc s) scs st1"
      using step top x1 False n unfolding classic_fwd_step_def st1_def [symmetric] Let_def
      by (auto split: if_splits)
    have "fwd_scan_inv g s t d u st'"
      unfolding st'
    proof (rule fold_inv)
      show "fwd_scan_inv g s t d u st1" using p(3) x xd by simp
      show "fwd_scan_inv g s t d u (if sc_inside sc \<noteq> 1 then s' else relax_fwd d u sc s')"
        if "sc \<in> set scs" "fwd_scan_inv g s t d u s'" for sc s'
        using fwd_scan_relax [OF that(2) fwd_neighbours_in(1) [OF n that(1)]
            nonneg_costsD [OF nn fwd_neighbours_in(2) [OF n that(1)]]] that(2)
        by simp
    qed
    then show ?thesis by (rule fwd_scan_done)
  qed
qed

lemma classic_bwd_step_inv:
  assumes step: "classic_bwd_step g st = Returns (st', skip)"
    and inv: "classic_inv g s t st" and nn: "nonneg_costs g"
  shows "classic_inv g s t st'"
proof (cases "pq_top (pq_bwd st)")
  case None
  then show ?thesis using step inv unfolding classic_bwd_step_def by simp
next
  case (Some e)
  obtain d u where e: "e = (d, u)" by (cases e)
  have top: "pq_top (pq_bwd st) = Some (d, u)" using Some e by simp
  define st1 where "st1 = st\<lparr>pq_bwd := pq_pop (pq_bwd st)\<rparr>"
  note p = bwd_pop [OF inv top, folded st1_def]
  obtain x where x: "dist_bwd st u = Some x" "x \<le> d" using p(2) by blast
  have x1: "dist_bwd st1 u = Some x" using x unfolding st1_def by simp
  show ?thesis
  proof (cases "d > x \<or> \<not> xless (Fin d) (best st1)")
    case True
    then have "st' = st1"
      using step top x1 unfolding classic_bwd_step_def st1_def [symmetric] Let_def
      by (auto split: if_splits)
    then show ?thesis using p(1) by simp
  next
    case False
    then have xd: "x = d" using x by simp
    obtain scs where n: "bwd_neighbours g u = Returns scs"
      using step top x1 False unfolding classic_bwd_step_def st1_def [symmetric] Let_def
      by (cases "bwd_neighbours g u") (auto split: if_splits)
    have st': "st' = fold (\<lambda>sc s. if sc_inside sc \<noteq> -1 \<and> sc_inside sc \<noteq> 0 then s
                                   else relax_bwd d u sc s) scs st1"
      using step top x1 False n unfolding classic_bwd_step_def st1_def [symmetric] Let_def
      by (auto split: if_splits)
    have "bwd_scan_inv g s t d u st'"
      unfolding st'
    proof (rule fold_inv)
      show "bwd_scan_inv g s t d u st1" using p(3) x xd by simp
      show "bwd_scan_inv g s t d u (if sc_inside sc \<noteq> -1 \<and> sc_inside sc \<noteq> 0 then s'
                                     else relax_bwd d u sc s')"
        if "sc \<in> set scs" "bwd_scan_inv g s t d u s'" for sc s'
        using bwd_scan_relax [OF that(2) bwd_neighbours_in(1) [OF n that(1)]
            nonneg_costsD [OF nn bwd_neighbours_in(2) [OF n that(1)]]] that(2)
        by simp
    qed
    then show ?thesis by (rule bwd_scan_done)
  qed
qed

lemma classic_loop_inv:
  assumes run: "classic_loop g st = Some (Returns st')" and inv: "classic_inv g s t st"
    and nn: "nonneg_costs g"
  shows "classic_inv g s t st'"
proof -
  define Q where "Q = (\<lambda>g st y. nonneg_costs g \<longrightarrow> classic_inv g s t st \<longrightarrow>
                         (\<forall>st'. y = Returns st' \<longrightarrow> classic_inv g s t st'))"
  have "Q g st (Returns st')"
  proof (rule classic_loop.raw_induct [where P = Q, OF _ run], goal_cases)
    case (1 loop g st y)
    show ?case unfolding Q_def
    proof (intro impI allI)
      fix st'
      assume nn: "nonneg_costs g" and inv: "classic_inv g s t st" and y: "y = Returns st'"
      have IH: "classic_inv g s t st'" if "loop g x = Some y" "classic_inv g s t x" for x
        using 1(1) [OF that(1)] that(2) nn y unfolding Q_def by blast
      show "classic_inv g s t st'"
      proof (cases "pq_fwd st = [] \<and> pq_bwd st = []")
        case True
        then show ?thesis using 1(2) y inv by simp
      next
        case False
        show ?thesis
        proof (cases "classic_fwd_step g st")
          case OutOfBounds
          then show ?thesis using 1(2) False y by simp
        next
          case (Returns r1)
          obtain st1 skip1 where r1: "r1 = (st1, skip1)" by (cases r1)
          have i1: "classic_inv g s t st1"
            using classic_fwd_step_inv [OF _ inv nn] Returns r1 by simp
          show ?thesis
          proof (cases skip1)
            case True
            then have "loop g st1 = Some y" using 1(2) False Returns r1 by simp
            then show ?thesis using IH i1 by blast
          next
            case s1: False
            show ?thesis
            proof (cases "classic_bwd_step g st1")
              case OutOfBounds
              then show ?thesis using 1(2) False Returns r1 s1 y by simp
            next
              case R2: (Returns r2)
              obtain st2 skip2 where r2: "r2 = (st2, skip2)" by (cases r2)
              have i2: "classic_inv g s t st2"
                using classic_bwd_step_inv [OF _ i1 nn] R2 r2 by simp
              show ?thesis
              proof (cases "\<not> skip2 \<and> classic_stop st2")
                case True
                then have "y = Returns st2" using 1(2) False Returns r1 s1 R2 r2 by simp
                then show ?thesis using y i2 by simp
              next
                case False2: False
                then have "loop g st2 = Some y" using 1(2) False Returns r1 s1 R2 r2
                  by (auto split: if_splits)
                then show ?thesis using IH i2 by blast
              qed
            qed
          qed
        qed
      qed
    qed
  qed
  then show ?thesis using inv nn unfolding Q_def by blast
qed

subsection \<open>Paths\<close>

lemma path_links_append:
  "path_links lnk (xs @ [m]) c1 \<Longrightarrow> path_links lnk (m # ys) c2 \<Longrightarrow>
   path_links lnk (xs @ m # ys) (c1 @ c2)"
proof (induction xs arbitrary: c1)
  case Nil
  then show ?case by simp
next
  case (Cons x xs)
  show ?case
  proof (cases xs)
    case Nil
    then show ?thesis using Cons.prems by (cases c1) auto
  next
    case (Cons y zs)
    then show ?thesis using Cons.prems Cons.IH by (cases c1) auto
  qed
qed

lemma path_links_rev:
  "path_links (\<lambda>a b c. lnk b a c) xs cs \<Longrightarrow> path_links lnk (rev xs) (rev cs)"
proof (induction "\<lambda>a b c. lnk b a c" xs cs rule: path_links.induct)
  case (4 x y xs c cs)
  have a: "path_links lnk (rev xs @ [y]) (rev cs)" using 4 by simp
  have b: "path_links lnk (y # [x]) [c]" using 4 by simp
  show ?case using path_links_append [OF a b] by simp
qed auto

lemma path_links_mono:
  "path_links lnk xs cs \<Longrightarrow> (\<And>x y c. lnk x y c \<Longrightarrow> lnk' x y c) \<Longrightarrow> path_links lnk' xs cs"
  by (induction lnk xs cs rule: path_links.induct) auto

lemma path_links_length: "path_links lnk xs cs \<Longrightarrow> length xs = Suc (length cs)"
  by (induction lnk xs cs rule: path_links.induct) auto

subsection \<open>Following the parents\<close>

lemma trace_fwd_chain:
  assumes inv: "side_inv lnk rt r0 L (D, P, Q)"
    and run: "trace_fwd P cur acc = Some res" and x: "D cur = Some x"
  shows "\<exists>vs cs. res = acc @ cur # vs \<and> last (cur # vs) = rt \<and>
           path_links (\<lambda>a b c. lnk b a c) (cur # vs) cs \<and> x = r0 + sum_list cs"
proof -
  note I = side_invD [OF inv]
  define R where "R = (\<lambda>P' cur acc res. P' = P \<longrightarrow> (\<forall>x. D cur = Some x \<longrightarrow>
     (\<exists>vs cs. res = acc @ cur # vs \<and> last (cur # vs) = rt \<and>
           path_links (\<lambda>a b c. lnk b a c) (cur # vs) cs \<and> x = r0 + sum_list cs)))"
  have "R P cur acc res"
  proof (rule trace_fwd.raw_induct [where P = R, OF _ run], goal_cases)
    case (1 tr P' cur acc res)
    show ?case unfolding R_def
    proof (intro impI allI)
      fix x assume P': "P' = P" and x: "D cur = Some x"
      obtain p where p: "P cur = Some p" using I(5) [of cur] x by auto
      show "\<exists>vs cs. res = acc @ cur # vs \<and> last (cur # vs) = rt \<and>
           path_links (\<lambda>a b c. lnk b a c) (cur # vs) cs \<and> x = r0 + sum_list cs"
      proof (cases "p = cur")
        case True
        then have "res = acc @ [cur]" using 1(2) p P' by (simp add: Let_def)
        moreover have "cur = rt" using I(7) [of cur] p True by simp
        moreover have "x = r0" using I(1) x \<open>cur = rt\<close> by simp
        ultimately show ?thesis by (intro exI [of _ "[]"]) simp
      next
        case False
        then have rec: "tr P p (acc @ [cur]) = Some res" using 1(2) p P' by (simp add: Let_def)
        obtain c fp where l: "lnk p cur c" "D p = Some fp" "D cur = Some (fp + c)"
          using I(6) [OF p False] by blast
        obtain vs cs where r: "res = (acc @ [cur]) @ p # vs" "last (p # vs) = rt"
            "path_links (\<lambda>a b c. lnk b a c) (p # vs) cs" "fp = r0 + sum_list cs"
          using 1(1) [OF rec] l(2) unfolding R_def by blast
        show ?thesis
          apply (rule exI [of _ "p # vs"])
          apply (rule exI [of _ "c # cs"])
          using r l x by simp
      qed
    qed
  qed
  then show ?thesis using x unfolding R_def by blast
qed

lemma trace_bwd_chain:
  assumes inv: "side_inv lnk rt r0 L (D, P, Q)"
    and run: "trace_bwd P cur acc = Some res" and x: "D cur = Some x"
  shows "\<exists>vs cs. res = acc @ vs \<and> last (cur # vs) = rt \<and>
           path_links (\<lambda>a b c. lnk b a c) (cur # vs) cs \<and> x = r0 + sum_list cs"
proof -
  note I = side_invD [OF inv]
  define R where "R = (\<lambda>P' cur acc res. P' = P \<longrightarrow> (\<forall>x. D cur = Some x \<longrightarrow>
     (\<exists>vs cs. res = acc @ vs \<and> last (cur # vs) = rt \<and>
           path_links (\<lambda>a b c. lnk b a c) (cur # vs) cs \<and> x = r0 + sum_list cs)))"
  have "R P cur acc res"
  proof (rule trace_bwd.raw_induct [where P = R, OF _ run], goal_cases)
    case (1 tr P' cur acc res)
    show ?case unfolding R_def
    proof (intro impI allI)
      fix x assume P': "P' = P" and x: "D cur = Some x"
      obtain p where p: "P cur = Some p" using I(5) [of cur] x by auto
      show "\<exists>vs cs. res = acc @ vs \<and> last (cur # vs) = rt \<and>
           path_links (\<lambda>a b c. lnk b a c) (cur # vs) cs \<and> x = r0 + sum_list cs"
      proof (cases "p = cur")
        case True
        then have "res = acc" using 1(2) p P' by simp
        moreover have "cur = rt" using I(7) [of cur] p True by simp
        moreover have "x = r0" using I(1) x \<open>cur = rt\<close> by simp
        ultimately show ?thesis by (intro exI [of _ "[]"]) simp
      next
        case False
        then have rec: "tr P p (acc @ [p]) = Some res" using 1(2) p P' by simp
        obtain c fp where l: "lnk p cur c" "D p = Some fp" "D cur = Some (fp + c)"
          using I(6) [OF p False] by blast
        obtain vs cs where r: "res = (acc @ [p]) @ vs" "last (p # vs) = rt"
            "path_links (\<lambda>a b c. lnk b a c) (p # vs) cs" "fp = r0 + sum_list cs"
          using 1(1) [OF rec] l(2) unfolding R_def by blast
        show ?thesis
          apply (rule exI [of _ "p # vs"])
          apply (rule exI [of _ "c # cs"])
          using r l x by simp
      qed
    qed
  qed
  then show ?thesis using x unfolding R_def by blast
qed

lemma link_fwd_link: "link_fwd g x y c \<Longrightarrow> link g x y c"
  unfolding link_def by simp

lemma link_bwd_link: "link_bwd g x y c \<Longrightarrow> link g x y c"
  unfolding link_def by simp

lemma reconstruct_path:
  assumes f: "side_inv (link_fwd g) s 0 Lf (Df, Pf, Qf)"
    and b: "side_inv (\<lambda>p v c. link_bwd g v p c) t tc Lb (Db, Pb, Qb)"
    and r: "reconstruct Pf Pb m = Some p"
    and xf: "Df m = Some x" and xb: "Db m = Some y"
  shows "\<exists>cs. path_links (link g) p cs \<and> hd p = s \<and> last p = t \<and> x + y = sum_list cs + tc"
proof -
  obtain up where up: "trace_fwd Pf m [] = Some up" and dn: "trace_bwd Pb m (rev up) = Some p"
    using r unfolding reconstruct_def by (cases "trace_fwd Pf m []") auto
  obtain vs cs where u: "up = m # vs" "last (m # vs) = s"
      "path_links (\<lambda>a b c. link_fwd g b a c) (m # vs) cs" "x = 0 + sum_list cs"
    using trace_fwd_chain [OF f up xf] by auto
  obtain ws ds where d: "p = rev up @ ws" "last (m # ws) = t"
      "path_links (\<lambda>a b c. link_bwd g a b c) (m # ws) ds" "y = tc + sum_list ds"
    using trace_bwd_chain [OF b dn xb] by auto
  have 1: "path_links (link g) (rev vs @ [m]) (rev cs)"
    using path_links_mono [OF path_links_rev [OF u(3)], of "link g"] link_fwd_link by simp
  have 2: "path_links (link g) (m # ws) ds"
    using path_links_mono [OF d(3), of "link g"] link_bwd_link by simp
  have 3: "path_links (link g) p (rev cs @ ds)"
    using path_links_append [OF 1 2] unfolding d(1) u(1) by simp
  have 4: "hd p = s" using u(2) unfolding d(1) u(1) by (simp add: hd_append hd_rev split: if_splits)
  have 5: "last p = t" using d(2) unfolding d(1) u(1) by (simp split: if_splits)
  show ?thesis using 3 4 5 u(4) d(4) by (intro exI [of _ "rev cs @ ds"]) simp
qed

lemma classic_init_inv: "classic_inv g s t (classic_init g s t)"
proof -
  have f: "side_inv (link_fwd g) s 0 0 ([s \<mapsto> 0], [s \<mapsto> s], pq_push (0, s) [])"
    by (rule side_invI) (auto simp: pq_push_def split: if_splits)
  have b: "side_inv (\<lambda>p v c. link_bwd g v p c) t (get_edge_cost g t) (get_edge_cost g t)
       ([t \<mapsto> get_edge_cost g t], [t \<mapsto> t], pq_push (get_edge_cost g t, t) [])"
    by (rule side_invI) (auto simp: pq_push_def split: if_splits)
  show ?thesis
    unfolding classic_inv_def classic_init_def Let_def fwd_side_def bwd_side_def meet_inv_def
    using f b by auto
qed

lemma classic_path_cost:
  assumes nn: "nonneg_costs g" and q: "query_classic g s t = Some (Returns r)"
    and re: "reachable r"
  shows "\<exists>cs. path_links (link g) (path r) cs \<and> hd (path r) = s \<and> last (path r) = t \<and>
              distance r = sum_list cs + get_edge_cost g t"
proof (cases "s = t")
  case True
  then have "r = self_result g s" using q unfolding query_classic_def by simp
  then show ?thesis using True unfolding self_result_def by (intro exI [of _ "[]"]) simp
next
  case False
  have nr: "\<not> reachable (no_result msg)" for msg unfolding no_result_def by simp
  have m: "edge_meta g s \<noteq> None" "edge_meta g t \<noteq> None"
    using q re nr False unfolding query_classic_def by (auto split: if_splits)
  have fl: "finish_loop ''No path found'' (classic_loop g (classic_init g s t)) = Some (Returns r)"
    using q False m unfolding query_classic_def by simp
  obtain st where st: "classic_loop g (classic_init g s t) = Some (Returns st)"
      and fin: "bi_finish ''No path found'' st = Some r"
    using fl unfolding finish_loop_def
    by (auto split: option.splits outcome.splits)
  have inv: "classic_inv g s t st"
    using classic_loop_inv [OF st classic_init_inv nn] .
  have fo: "found st" using fin re nr unfolding bi_finish_def by (auto split: if_splits)
  obtain p where p: "reconstruct (parent_fwd st) (parent_bwd st) (meeting st) = Some p"
      and r: "r = \<lparr> distance = the_fin (best st), path = p, reachable = True, error = [] \<rparr>"
    using fin fo unfolding bi_finish_def by (auto split: option.splits)
  obtain x y where xy: "dist_fwd st (meeting st) = Some x" "dist_bwd st (meeting st) = Some y"
      "best st = Fin (x + y)"
    using inv fo unfolding classic_inv_def meet_inv_def by blast
  obtain Lf Lb where s: "side_inv (link_fwd g) s 0 Lf (dist_fwd st, parent_fwd st, pq_fwd st)"
      "side_inv (\<lambda>p v c. link_bwd g v p c) t (get_edge_cost g t) Lb (dist_bwd st, parent_bwd st, pq_bwd st)"
    using inv unfolding classic_inv_def fwd_side_def bwd_side_def by blast
  obtain cs where "path_links (link g) p cs" "hd p = s" "last p = t"
      "x + y = sum_list cs + get_edge_cost g t"
    using reconstruct_path [OF s p xy(1,2)] by blast
  then show ?thesis using r xy(3) unfolding the_fin_def by (intro exI [of _ cs]) simp
qed

lemma dijkstra_relax_side:
  "dij_side (dijkstra_relax d u sc st) = relax_side d u (sc_to sc) (sc_cost sc) (dij_side st)"
  "d_found (dijkstra_relax d u sc st) = d_found st"
  unfolding dijkstra_relax_def relax_side_def dij_side_def Let_def
  by (simp_all split: option.splits)

lemma dij_scan_relax:
  assumes inv: "dij_scan_inv g s d u st" and sc: "sc \<in> scanned_fwd g u" and c: "0 \<le> sc_cost sc"
  shows "dij_scan_inv g s d u (dijkstra_relax d u sc st)"
proof -
  have l: "link_fwd g u (sc_to sc) (sc_cost sc)" using sc unfolding link_fwd_def by blast
  have a: "side_inv (link_fwd g) s 0 d (d_dist st, d_parent st, d_pq st)"
    and Du: "d_dist st u = Some d"
    using inv unfolding dij_scan_inv_def dij_side_def by simp_all
  have r: "side_inv (link_fwd g) s 0 d (dij_side (dijkstra_relax d u sc st)) \<and>
        fst (dij_side (dijkstra_relax d u sc st)) u = Some d"
    unfolding dijkstra_relax_side using side_inv_relax [OF a Du l c] unfolding dij_side_def by simp
  have "fst (dij_side (dijkstra_relax d u sc st)) = d_dist (dijkstra_relax d u sc st)"
    unfolding dij_side_def by simp
  then show ?thesis
    using r inv unfolding dij_scan_inv_def dijkstra_relax_side(2) by simp
qed

lemma map_index_Some: "m k = Some x \<Longrightarrow> map_index m k = (x, m)"
  unfolding map_index_def by simp

lemma dijkstra_loop_post:
  assumes run: "dijkstra_loop g t st = Some (Returns st')" and inv: "dij_inv g s st"
    and nn: "nonneg_costs g"
  shows "dij_post g s t st'"
proof -
  define Q where "Q = (\<lambda>g t st y. nonneg_costs g \<longrightarrow> dij_inv g s st \<longrightarrow>
                         (\<forall>st'. y = Returns st' \<longrightarrow> dij_post g s t st'))"
  have "Q g t st (Returns st')"
  proof (rule dijkstra_loop.raw_induct [where P = Q, OF _ run], goal_cases)
    case (1 loop g t st y)
    show ?case unfolding Q_def
    proof (intro impI allI)
      fix st'
      assume nn: "nonneg_costs g" and inv: "dij_inv g s st" and y: "y = Returns st'"
      have IH: "dij_post g s t st'" if "loop g t x = Some y" "dij_inv g s x" for x
        using 1(1) [OF that(1)] that(2) nn y unfolding Q_def by blast
      obtain L where a: "side_inv (link_fwd g) s 0 L (d_dist st, d_parent st, d_pq st)"
        and nf: "\<not> d_found st"
        using inv unfolding dij_inv_def dij_side_def by blast
      show "dij_post g s t st'"
      proof (cases "pq_top (d_pq st)")
        case None
        then have "st' = st" using 1(2) y by simp
        then show ?thesis using inv unfolding dij_inv_def dij_post_def by blast
      next
        case (Some e)
        obtain d u where e: "e = (d, u)" by (cases e)
        have top: "pq_top (d_pq st) = Some (d, u)" using Some e by simp
        define st1 where "st1 = st\<lparr>d_pq := pq_pop (d_pq st)\<rparr>"
        note p = side_inv_pop [OF a top]
        obtain x where x: "d_dist st u = Some x" "x \<le> d" using p by blast
        have mi: "map_index (d_dist st1) u = (x, d_dist st1)"
          using x unfolding st1_def by (simp add: map_index_Some)
        have st2: "st1\<lparr>d_dist := d_dist st1\<rparr> = st1" by simp
        have s1: "side_inv (link_fwd g) s 0 d (dij_side st1)"
          using p unfolding dij_side_def st1_def by simp
        have nf1: "\<not> d_found st1" using nf unfolding st1_def by simp
        have body: "(if d > x then loop g t st1
                     else if u = t then Some (Returns (st1\<lparr>d_best_dist := Fin d, d_found := True\<rparr>))
                     else case fwd_neighbours g u of OutOfBounds \<Rightarrow> Some OutOfBounds
                          | Returns scs \<Rightarrow> loop g t (fold (dijkstra_relax d u) scs st1)) = Some y"
          using 1(2) top mi unfolding st1_def [symmetric]
          apply (simp add: Let_def)
          apply (simp only: st2)
          apply (simp split: if_splits)
          done
        show ?thesis
        proof (cases "d > x")
          case True
          then have "loop g t st1 = Some y" using body by simp
          moreover have "dij_inv g s st1" using s1 nf1 unfolding dij_inv_def by blast
          ultimately show ?thesis by (rule IH)
        next
          case False
          then have xd: "x = d" using x by simp
          have d1: "d_dist st1 u = Some d" using x xd unfolding st1_def by simp
          show ?thesis
          proof (cases "u = t")
            case True
            then have "st' = st1\<lparr>d_best_dist := Fin d, d_found := True\<rparr>"
              using body False y by simp
            then show ?thesis using s1 d1 True unfolding dij_post_def dij_side_def by auto
          next
            case ut: False
            obtain scs where n: "fwd_neighbours g u = Returns scs"
              and rec: "loop g t (fold (dijkstra_relax d u) scs st1) = Some y"
              using body False ut y by (cases "fwd_neighbours g u") auto
            have "dij_scan_inv g s d u (fold (dijkstra_relax d u) scs st1)"
            proof (rule fold_inv)
              show "dij_scan_inv g s d u st1" using s1 d1 nf1 unfolding dij_scan_inv_def by simp
              show "dij_scan_inv g s d u (dijkstra_relax d u sc s')"
                if "sc \<in> set scs" "dij_scan_inv g s d u s'" for sc s'
                using dij_scan_relax [OF that(2) fwd_neighbours_in(1) [OF n that(1)]
                    nonneg_costsD [OF nn fwd_neighbours_in(2) [OF n that(1)]]] .
            qed
            then have "dij_inv g s (fold (dijkstra_relax d u) scs st1)"
              unfolding dij_scan_inv_def dij_inv_def by blast
            then show ?thesis using IH [OF rec] by simp
          qed
        qed
      qed
    qed
  qed
  then show ?thesis using inv nn unfolding Q_def by blast
qed

lemma dijkstra_trace_chain:
  assumes inv: "side_inv lnk s r0 L (D, P, Q)"
    and run: "dijkstra_trace P s cur acc = Some res" and x: "D cur = Some x"
  shows "\<exists>vs cs. res @ [s] = acc @ cur # vs \<and> last (cur # vs) = s \<and>
           path_links (\<lambda>a b c. lnk b a c) (cur # vs) cs \<and> x = r0 + sum_list cs"
proof -
  note I = side_invD [OF inv]
  define R where "R = (\<lambda>P' s' cur acc res. P' = P \<longrightarrow> s' = s \<longrightarrow> (\<forall>x. D cur = Some x \<longrightarrow>
     (\<exists>vs cs. res @ [s] = acc @ cur # vs \<and> last (cur # vs) = s \<and>
           path_links (\<lambda>a b c. lnk b a c) (cur # vs) cs \<and> x = r0 + sum_list cs)))"
  have "R P s cur acc res"
  proof (rule dijkstra_trace.raw_induct [where P = R, OF _ run], goal_cases)
    case (1 tr P' s' cur acc res)
    show ?case unfolding R_def
    proof (intro impI allI)
      fix x assume P': "P' = P" and s': "s' = s" and x: "D cur = Some x"
      show "\<exists>vs cs. res @ [s] = acc @ cur # vs \<and> last (cur # vs) = s \<and>
           path_links (\<lambda>a b c. lnk b a c) (cur # vs) cs \<and> x = r0 + sum_list cs"
      proof (cases "cur = s")
        case True
        then have "res = acc" using 1(2) s' by simp
        moreover have "x = r0" using I(1) x True by simp
        ultimately show ?thesis using True by (intro exI [of _ "[]"]) simp
      next
        case False
        obtain p where p: "P cur = Some p" using I(5) [of cur] x by auto
        have pc: "p \<noteq> cur" using I(7) [of cur] p False by auto
        have rec: "tr P s p (acc @ [cur]) = Some res" using 1(2) p P' s' False by simp
        obtain c fp where l: "lnk p cur c" "D p = Some fp" "D cur = Some (fp + c)"
          using I(6) [OF p pc] by blast
        obtain vs cs where r: "res @ [s] = (acc @ [cur]) @ p # vs" "last (p # vs) = s"
            "path_links (\<lambda>a b c. lnk b a c) (p # vs) cs" "fp = r0 + sum_list cs"
          using 1(1) [OF rec] l(2) unfolding R_def by blast
        show ?thesis
          apply (rule exI [of _ "p # vs"])
          apply (rule exI [of _ "c # cs"])
          using r l x by simp
      qed
    qed
  qed
  then show ?thesis using x unfolding R_def by blast
qed

lemma dijkstra_init_inv: "dij_inv g s (dijkstra_init s)"
proof -
  have f: "side_inv (link_fwd g) s 0 0 ([s \<mapsto> 0], [s \<mapsto> s], pq_push (0, s) [])"
    by (rule side_invI) (auto simp: pq_push_def split: if_splits)
  show ?thesis
    unfolding dij_inv_def dijkstra_init_def dij_side_def using f by auto
qed

lemma dijkstra_path_cost:
  assumes nn: "nonneg_costs g" and q: "query_dijkstra g s t = Some (Returns r)"
    and re: "reachable r"
  shows "\<exists>cs. path_links (link g) (path r) cs \<and> hd (path r) = s \<and> last (path r) = t \<and>
              distance r = sum_list cs + get_edge_cost g t"
proof (cases "s = t")
  case True
  then have "r = self_result g s" using q unfolding query_dijkstra_def by simp
  then show ?thesis using True unfolding self_result_def by (intro exI [of _ "[]"]) simp
next
  case False
  have nr: "\<not> reachable (no_result msg)" for msg unfolding no_result_def by simp
  have m: "edge_meta g s \<noteq> None" "edge_meta g t \<noteq> None"
    using q re nr False unfolding query_dijkstra_def by (auto split: if_splits)
  obtain st where st: "dijkstra_loop g t (dijkstra_init s) = Some (Returns st)"
      and fin: "dijkstra_finish g s t st = Some r"
    using q False m unfolding query_dijkstra_def
    by (auto split: option.splits outcome.splits)
  have post: "dij_post g s t st"
    using dijkstra_loop_post [OF st dijkstra_init_inv nn] .
  have fo: "d_found st" using fin re nr unfolding dijkstra_finish_def by (auto split: if_splits)
  obtain acc where acc: "dijkstra_trace (d_parent st) s t [] = Some acc"
      and r: "r = \<lparr> distance = the_fin (d_best_dist st) + get_edge_cost g t,
                    path = rev (acc @ [s]), reachable = True, error = [] \<rparr>"
    using fin fo unfolding dijkstra_finish_def by (auto split: option.splits)
  obtain d L where d: "d_best_dist st = Fin d" "d_dist st t = Some d"
     and si: "side_inv (link_fwd g) s 0 L (d_dist st, d_parent st, d_pq st)"
    using post fo unfolding dij_post_def dij_side_def by blast
  obtain vs cs where c: "acc @ [s] = t # vs" "last (t # vs) = s"
      "path_links (\<lambda>a b c. link_fwd g b a c) (t # vs) cs" "d = 0 + sum_list cs"
    using dijkstra_trace_chain [OF si acc d(2)] by auto
  have 1: "path_links (link g) (rev (t # vs)) (rev cs)"
    using path_links_mono [OF path_links_rev [OF c(3)], of "link g"] link_fwd_link by simp
  have 2: "hd (rev (t # vs)) = s" using c(2) by (simp add: hd_rev del: rev.simps last.simps)
  have 3: "last (rev (t # vs)) = t" by simp
  show ?thesis
    using 1 2 3 c(4) d(1) unfolding r c(1) the_fin_def
    by (intro exI [of _ "rev cs"]) (simp del: rev.simps)
qed

text \<open>
  Claim C2, as amended.  On a store without negative shortcut costs, when \<^verbatim>\<open>query_classic\<close>
  or \<^verbatim>\<open>query_dijkstra\<close> returns a reachable result, its path \<open>[e0, \<dots>, en]\<close> starts at the
  source and ends at the target, consecutive entries are linked by shortcuts, and the
  returned distance is the sum of the costs of these shortcuts plus \<open>edge_cost(target)\<close>,
  for the classic query as for plain Dijkstra.
\<close>

theorem path_cost:
  assumes "nonneg_costs g"
    and "query_classic g s t = Some (Returns r) \<or> query_dijkstra g s t = Some (Returns r)"
    and "reachable r"
  shows "\<exists>cs. path_links (link g) (path r) cs \<and> hd (path r) = s \<and> last (path r) = t \<and>
              distance r = sum_list cs + get_edge_cost g t"
  using assms classic_path_cost [of g s t r] dijkstra_path_cost [of g s t r] by blast

text \<open>
  The classic query from edge 1 to edge 2 over one shortcut of cost 10, with edge costs 1
  and 2.
\<close>

theorem path_cost_witness:
  "nonneg_costs graph_du \<and>
   query_classic graph_du 1 2 =
     Some (Returns \<lparr> distance = 12, path = [1, 2], reachable = True, error = [] \<rparr>) \<and>
   (\<exists>cs. path_links (link graph_du) [1, 2] cs \<and> 12 = sum_list cs + get_edge_cost graph_du 2) \<and>
   get_edge_cost graph_du 2 = 2"
proof -
  have n: "nonneg_costs graph_du" by code_simp
  have q: "query_classic graph_du 1 2 =
     Some (Returns \<lparr> distance = 12, path = [1, 2], reachable = True, error = [] \<rparr>)"
    by code_simp
  have c: "get_edge_cost graph_du 2 = 2" by code_simp
  show ?thesis
    using path_cost [OF n disjI1 [OF q]] n q c by simp
qed

text \<open>
  Claim C2 as stated fails for the classic query: the distance 12 of the path \<open>[1, 2]\<close> is
  the cost 10 of its shortcut plus the cost 2 of the target edge, not plus the cost 1 of
  \<open>e0\<close>.
\<close>

theorem path_cost_counterexample:
  "query_classic graph_du 1 2 =
     Some (Returns \<lparr> distance = 12, path = [1, 2], reachable = True, error = [] \<rparr>) \<and>
   find_shortcut_index graph_du 1 2 = Returns 0 \<and>
   sc_cost (shortcuts graph_du ! 0) = 10 \<and>
   get_edge_cost graph_du 1 = 1 \<and> get_edge_cost graph_du 2 = 2"
  by code_simp
section \<open>Closed edges and least cost\<close>

lemma fold_inv_prefix:
  assumes "I pre s" and "\<And>ys x s. x \<in> set xs \<Longrightarrow> I ys s \<Longrightarrow> I (ys @ [x]) (f x s)"
  shows "I (pre @ xs) (fold f xs s)"
  using assms
proof (induction xs arbitrary: pre s)
  case Nil then show ?case by simp
next
  case (Cons a xs)
  have "I ((pre @ [a]) @ xs) (fold f xs (f a s))"
  proof (rule Cons.IH)
    show "I (pre @ [a]) (f a s)" using Cons.prems(2) [of a pre s] Cons.prems(1) by simp
    show "I (ys @ [x]) (f x s')" if "x \<in> set xs" "I ys s'" for ys x s'
      using Cons.prems(2) [of x ys s'] that by simp
  qed
  then show ?case by simp
qed

lemma closed_pop_stale:
  assumes c: "closed_inv lnk (D, P, Q)" and top: "pq_top Q = Some (d, u)"
    and st: "D u = Some x" "x < d"
  shows "closed_inv lnk (D, P, pq_pop Q)"
proof -
  have pop: "pq_pop Q = remove1 (d, u) Q" using top unfolding pq_pop_def by simp
  have dq: "distinct Q" using c unfolding closed_inv_def by simp
  have k: "\<And>v x y c. D v = Some x \<Longrightarrow> (x, v) \<notin> set Q \<Longrightarrow> lnk v y c \<Longrightarrow>
              \<exists>z. D y = Some z \<and> z \<le> x + c"
    using c unfolding closed_inv_def by blast
  have "\<exists>z. D y = Some z \<and> z \<le> x' + c'"
    if a: "D v = Some x'" "(x', v) \<notin> set (remove1 (d, u) Q)" "lnk v y c'" for v x' y c'
  proof -
    have "(x', v) \<noteq> (d, u)" using a(1) st by auto
    then have "(x', v) \<notin> set Q" using a(2) by (simp add: in_set_remove1)
    then show ?thesis using k a by blast
  qed
  then show ?thesis unfolding closed_inv_def pop using dq by auto
qed

lemma closed_pop_scan:
  assumes c: "closed_inv lnk (D, P, Q)" and top: "pq_top Q = Some (d, u)"
  shows "scan_closed lnk u d {} (D, P, pq_pop Q)"
proof -
  have pop: "pq_pop Q = remove1 (d, u) Q" using top unfolding pq_pop_def by simp
  have dq: "distinct Q" using c unfolding closed_inv_def by simp
  have k: "\<And>v x y c. D v = Some x \<Longrightarrow> (x, v) \<notin> set Q \<Longrightarrow> lnk v y c \<Longrightarrow>
              \<exists>z. D y = Some z \<and> z \<le> x + c"
    using c unfolding closed_inv_def by blast
  have 1: "(d, u) \<notin> set (remove1 (d, u) Q)" using dq by simp
  have "\<exists>z. D y = Some z \<and> z \<le> x' + c'"
    if a: "v \<noteq> u" "D v = Some x'" "(x', v) \<notin> set (remove1 (d, u) Q)" "lnk v y c'" for v x' y c'
  proof -
    have "(x', v) \<noteq> (d, u)" using a(1) by auto
    then have "(x', v) \<notin> set Q" using a(3) by (simp add: in_set_remove1)
    then show ?thesis using k a by blast
  qed
  then show ?thesis unfolding scan_closed_def pop using dq 1 by auto
qed

lemma scan_closed_relax:
  assumes inv: "side_inv lnk0 rt r0 d (D, P, Q)" and Du: "D u = Some d"
    and l: "lnk0 u v c" and c: "0 \<le> c"
    and sc: "scan_closed lnk u d seen (D, P, Q)"
  shows "scan_closed lnk u d (insert (v, c) seen) (relax_side d u v c (D, P, Q))"
proof (cases "case D v of None \<Rightarrow> True | Some x \<Rightarrow> d + c < x")
  case False
  then obtain x where "D v = Some x" "x \<le> d + c" by (cases "D v") auto
  then show ?thesis using sc False unfolding relax_side_def scan_closed_def by auto
next
  case True
  note I = side_invD [OF inv]
  have lt: "d + c < x" if "D v = Some x" for x using True that by simp
  have v_u: "v \<noteq> u" using lt [of d] Du c by auto
  define D' where "D' = D(v \<mapsto> d + c)"
  define Q' where "Q' = pq_push (d + c, v) Q"
  have eq: "relax_side d u v c (D, P, Q) = (D', P(v \<mapsto> u), Q')"
    using True unfolding relax_side_def D'_def Q'_def by simp
  have S: "distinct Q" "(d, u) \<notin> set Q"
    "\<And>w x y c. w \<noteq> u \<Longrightarrow> D w = Some x \<Longrightarrow> (x, w) \<notin> set Q \<Longrightarrow> lnk w y c \<Longrightarrow>
        \<exists>z. D y = Some z \<and> z \<le> x + c"
    "\<And>e. e \<in> seen \<Longrightarrow> \<exists>z. D (fst e) = Some z \<and> z \<le> d + snd e"
    using sc unfolding scan_closed_def by blast+
  have fresh: "(d + c, v) \<notin> set Q"
  proof
    assume a: "(d + c, v) \<in> set Q"
    obtain x where "D v = Some x" "x \<le> d + c" using I(4) [OF a] by auto
    then show False using lt [of x] by simp
  qed
  have le: "\<exists>z'. D' y = Some z' \<and> z' \<le> b" if "D y = Some z" "z \<le> b" for y z b
    using that lt [of z] unfolding D'_def by (cases "y = v") auto
  have 1: "distinct Q'" using S(1) fresh unfolding Q'_def pq_push_def by simp
  have 2: "(d, u) \<notin> set Q'" using S(2) v_u unfolding Q'_def pq_push_def by simp
  have 3: "\<exists>z. D' y = Some z \<and> z \<le> x + c'"
    if a: "w \<noteq> u" "D' w = Some x" "(x, w) \<notin> set Q'" "lnk w y c'" for w x y c'
  proof -
    have wv: "w \<noteq> v" using a(2,3) unfolding D'_def Q'_def pq_push_def by auto
    then have "D w = Some x" "(x, w) \<notin> set Q"
      using a(2,3) unfolding D'_def Q'_def pq_push_def by auto
    then obtain z where "D y = Some z" "z \<le> x + c'" using S(3) [OF a(1) _ _ a(4)] by blast
    then show ?thesis by (rule le)
  qed
  have 4: "\<exists>z. D' (fst e) = Some z \<and> z \<le> d + snd e" if e: "e \<in> insert (v, c) seen" for e
  proof (cases "e = (v, c)")
    case True then show ?thesis unfolding D'_def by simp
  next
    case False
    then have "e \<in> seen" using e by simp
    then obtain z where "D (fst e) = Some z" "z \<le> d + snd e" using S(4) by blast
    then show ?thesis by (rule le)
  qed
  show ?thesis unfolding eq scan_closed_def prod.case using 1 2 3 4 by blast
qed

lemma scan_closed_done:
  assumes sc: "scan_closed lnk u d seen (D, P, Q)" and Du: "D u = Some d"
    and all: "\<And>y c. lnk u y c \<Longrightarrow> (y, c) \<in> seen"
  shows "closed_inv lnk (D, P, Q)"
proof -
  have S: "distinct Q"
    "\<And>w x y c. w \<noteq> u \<Longrightarrow> D w = Some x \<Longrightarrow> (x, w) \<notin> set Q \<Longrightarrow> lnk w y c \<Longrightarrow>
        \<exists>z. D y = Some z \<and> z \<le> x + c"
    "\<And>e. e \<in> seen \<Longrightarrow> \<exists>z. D (fst e) = Some z \<and> z \<le> d + snd e"
    using sc unfolding scan_closed_def by blast+
  have "\<exists>z. D y = Some z \<and> z \<le> x + c"
    if a: "D w = Some x" "(x, w) \<notin> set Q" "lnk w y c" for w x y c
  proof (cases "w = u")
    case True
    then have "x = d" using a(1) Du by simp
    then show ?thesis using S(3) [OF all [of y c]] a(3) True by simp
  next
    case False then show ?thesis using S(2) a by blast
  qed
  then show ?thesis unfolding closed_inv_def using S(1) by auto
qed

text \<open>A path out of an edge with a distance runs into the queue or stays among closed edges.\<close>

lemma path_links_nonneg:
  "path_links lnk xs cs \<Longrightarrow> (\<And>x y c. lnk x y c \<Longrightarrow> 0 \<le> c) \<Longrightarrow> 0 \<le> sum_list cs"
  by (induction lnk xs cs rule: path_links.induct) (auto intro: add_nonneg_nonneg)

lemma frontier:
  assumes c: "closed_inv lnk (D, P, Q)" and nn: "\<And>x y c. lnk x y c \<Longrightarrow> 0 \<le> c"
  shows "path_links lnk (x # xs) cs \<Longrightarrow> D x = Some a \<Longrightarrow>
     (\<exists>y b. D y = Some b \<and> (b, y) \<in> set Q \<and> b \<le> a + sum_list cs) \<or>
     (\<exists>b. D (last (x # xs)) = Some b \<and> b \<le> a + sum_list cs)"
proof (induction xs arbitrary: x a cs)
  case Nil
  then show ?case by simp
next
  case (Cons y ys)
  obtain c' cs' where cs: "cs = c' # cs'" using Cons.prems(1) by (cases cs) auto
  have l: "lnk x y c'" and rest: "path_links lnk (y # ys) cs'" using Cons.prems(1) cs by auto
  have s0: "0 \<le> sum_list cs'" using path_links_nonneg [OF rest nn] .
  have c0: "0 \<le> c'" using nn [OF l] .
  show ?case
  proof (cases "(a, x) \<in> set Q")
    case True
    then show ?thesis using Cons.prems(2) s0 c0 cs by (intro disjI1 exI [of _ x] exI [of _ a]) simp
  next
    case False
    have "\<exists>z. D y = Some z \<and> z \<le> a + c'"
      using c Cons.prems(2) False l unfolding closed_inv_def by blast
    then obtain z where z: "D y = Some z" "z \<le> a + c'" by blast
    consider (q) y' b where "D y' = Some b" "(b, y') \<in> set Q" "b \<le> z + sum_list cs'"
      | (e) b where "D (last (y # ys)) = Some b" "b \<le> z + sum_list cs'"
      using Cons.IH [OF rest z(1)] by blast
    then show ?thesis
    proof cases
      case q
      then show ?thesis using z(2) cs by (intro disjI1 exI [of _ y'] exI [of _ b]) simp
    next
      case e
      then show ?thesis using z(2) cs by (intro disjI2 exI [of _ b]) simp
    qed
  qed
qed

lemma queued_relax: "queued sd t \<Longrightarrow> queued (relax_side d u v c sd) t"
  unfolding queued_def relax_side_def pq_push_def
  by (cases sd) (auto split: option.splits if_splits)

lemma queued_pop:
  assumes "queued (D, P, Q) t" "pq_top Q = Some (d, u)" "u \<noteq> t \<or> D t \<noteq> Some d"
  shows "queued (D, P, pq_pop Q) t"
proof -
  have pop: "pq_pop Q = remove1 (d, u) Q" using assms(2) unfolding pq_pop_def by simp
  show ?thesis using assms(1,3) unfolding queued_def pop by (auto simp: in_set_remove1)
qed


lemma connects_frontier:
  assumes c: "closed_inv lnk (D, P, Q)" and nn: "\<forall>x y c. lnk x y c \<longrightarrow> 0 \<le> c"
    and p: "connects lnk s t p cs" and s: "D s = Some a"
  shows "(\<exists>y b. D y = Some b \<and> (b, y) \<in> set Q \<and> b \<le> a + sum_list cs) \<or>
         (\<exists>b. D t = Some b \<and> b \<le> a + sum_list cs)"
proof -
  obtain xs where xs: "p = s # xs" using p unfolding connects_def by (cases p) auto
  have pl: "path_links lnk (s # xs) cs" and la: "last (s # xs) = t"
    using p xs unfolding connects_def by auto
  have nn': "\<And>x y c. lnk x y c \<Longrightarrow> 0 \<le> c" using nn by blast
  show ?thesis using frontier [of lnk D P Q s xs cs a, OF c nn' pl s] unfolding la by simp
qed

section \<open>The unidirectional search follows its four phases\<close>

lemma uni_edge_pack:
  assumes "0 \<le> ph" "ph < 16"
  shows "uni_edge (uni_pack e ph) = e"
proof -
  have p: "\<not> bit (word_of_int ph :: u64) (n + 4)" for n
  proof -
    have "take_bit 4 ph = ph" using assms by (simp add: take_bit_int_eq_self)
    then have "bit ph (n + 4) = bit (take_bit 4 ph) (n + 4)" by simp
    then have "\<not> bit ph (n + 4)" by (simp add: bit_take_bit_iff)
    then show ?thesis by (simp add: bit_word_of_int_iff)
  qed
  have p': "\<not> bit (word_of_int ph :: u64) (4 + n)" for n
    using p [of n] by (simp add: add.commute)
  show ?thesis
    unfolding uni_edge_def uni_pack_def
    by (rule bit_word_eqI)
      (auto simp: bit_ucast_iff bit_drop_bit_eq bit_or_iff bit_push_bit_iff p p' dest: bit_imp_le_length)
qed

lemma uni_phase_pack:
  assumes "0 \<le> ph" "ph < 16"
  shows "uni_phase (uni_pack e ph) = ph"
proof -
  have m: "(15 :: u64) = mask 4" by (simp add: mask_eq_exp_minus_1)
  have "(push_bit 4 (ucast e) OR word_of_int ph) AND (mask 4 :: u64) = word_of_int ph"
  proof (rule bit_word_eqI)
    fix n assume "n < LENGTH(64)"
    have "take_bit 4 ph = ph" using assms by (simp add: take_bit_int_eq_self)
    then have "bit ph n \<Longrightarrow> n < 4"
      by (metis bit_take_bit_iff)
    then show "bit ((push_bit 4 (ucast e) OR word_of_int ph) AND (mask 4 :: u64)) n = bit (word_of_int ph :: u64) n"
      by (auto simp: bit_and_iff bit_or_iff bit_push_bit_iff bit_mask_iff bit_word_of_int_iff)
  qed
  moreover have "uint (word_of_int ph :: u64) = ph"
    using assms by (simp add: uint_word_of_int take_bit_int_eq_self)
  ultimately show ?thesis unfolding uni_phase_def uni_pack_def m by simp
qed

lemma uni_phase_step_range:
  "uni_phase_step hr p sc = Some ph \<Longrightarrow> 0 \<le> ph \<and> ph < 16"
  unfolding uni_phase_step_def by (auto split: if_splits)

lemma uni_relax_side:
  "uni_side (uni_relax hr d cur sc st) =
     (case uni_phase_step hr (uni_phase cur) sc of
        None \<Rightarrow> uni_side st
      | Some ph \<Rightarrow> relax_side d cur (uni_pack (sc_to sc) ph) (sc_cost sc) (uni_side st))"
  "u_found (uni_relax hr d cur sc st) = u_found st"
  "u_best_dist (uni_relax hr d cur sc st) = u_best_dist st"
  unfolding uni_relax_def relax_side_def uni_side_def Let_def
  by (simp_all split: option.splits)

lemma uni_link_nonneg: "nonneg_costs g \<Longrightarrow> uni_link g hr x y c \<Longrightarrow> 0 \<le> c"
proof -
  assume nn: "nonneg_costs g" and l: "uni_link g hr x y c"
  obtain sc where sc: "sc \<in> scanned_fwd g (uni_edge x)" "sc_cost sc = c"
    using l unfolding uni_link_def by (auto split: option.splits)
  obtain scs where n: "fwd_neighbours g (uni_edge x) = Returns scs" "sc \<in> set scs"
    using sc(1) unfolding scanned_fwd_def by (cases "fwd_neighbours g (uni_edge x)") auto
  show "0 \<le> c" using nonneg_costsD [OF nn fwd_neighbours_in(2) [OF n]] sc(2) by simp
qed

lemma uni_accepts_connects:
  "uni_accepts g hr s t ys cs \<Longrightarrow> connects (uni_link g hr) (uni_pack s 0) (last ys) ys cs"
  unfolding uni_accepts_def connects_def by simp

lemma uni_seen_snoc_None:
  "uni_phase_step hr (uni_phase cur) sc = None \<Longrightarrow> uni_seen hr cur (xs @ [sc]) = uni_seen hr cur xs"
  unfolding uni_seen_def by auto

lemma uni_seen_snoc_Some:
  "uni_phase_step hr (uni_phase cur) sc = Some ph \<Longrightarrow>
   uni_seen hr cur (xs @ [sc]) = insert (uni_pack (sc_to sc) ph, sc_cost sc) (uni_seen hr cur xs)"
  unfolding uni_seen_def by auto

lemma uni_scan_relax:
  assumes i: "uni_scan g hr s t d cur xs st" and m: "sc \<in> set scs"
    and n: "fwd_neighbours g (uni_edge cur) = Returns scs" and nn: "nonneg_costs g"
  shows "uni_scan g hr s t d cur (xs @ [sc]) (uni_relax hr d cur sc st)"
proof (cases "uni_phase_step hr (uni_phase cur) sc")
  case None
  have "uni_relax hr d cur sc st = st" using None unfolding uni_relax_def by simp
  then show ?thesis using i unfolding uni_scan_def uni_seen_snoc_None [OF None] by simp
next
  case (Some ph)
  define y where "y = uni_pack (sc_to sc) ph"
  have sf: "sc \<in> scanned_fwd g (uni_edge cur)" using fwd_neighbours_in(1) [OF n m] .
  have c0: "0 \<le> sc_cost sc" using nonneg_costsD [OF nn fwd_neighbours_in(2) [OF n m]] .
  have l: "uni_link g hr cur y (sc_cost sc)"
    unfolding uni_link_def y_def using sf Some by (intro bexI [of _ sc]) simp_all
  have si: "side_inv (uni_link g hr) (uni_pack s 0) 0 d (u_dist_map st, u_parent_map st, u_pq st)"
    and Du: "u_dist_map st cur = Some d"
    and sc: "scan_closed (uni_link g hr) cur d (uni_seen hr cur xs) (u_dist_map st, u_parent_map st, u_pq st)"
    and q: "\<And>z. uni_edge z = t \<Longrightarrow> queued (uni_side st) z"
    and f: "\<not> u_found st" "u_best_dist st = PInf"
    using i unfolding uni_scan_def uni_side_def by simp_all
  have side: "uni_side (uni_relax hr d cur sc st) =
      relax_side d cur y (sc_cost sc) (u_dist_map st, u_parent_map st, u_pq st)"
    unfolding uni_relax_side(1) y_def using Some unfolding uni_side_def by simp
  note r = side_inv_relax [OF si Du l c0]
  have Du': "u_dist_map (uni_relax hr d cur sc st) cur = Some d"
  proof -
    have "fst (uni_side (uni_relax hr d cur sc st)) = u_dist_map (uni_relax hr d cur sc st)"
      unfolding uni_side_def by simp
    then show ?thesis using r unfolding side [symmetric] by simp
  qed
  have q': "queued (uni_side (uni_relax hr d cur sc st)) z" if "uni_edge z = t" for z
    unfolding side using queued_relax [OF q [OF that, unfolded uni_side_def]] .
  show ?thesis
    unfolding uni_scan_def uni_seen_snoc_Some [OF Some] side uni_relax_side(2,3)
    using r scan_closed_relax [OF si Du l c0 sc] Du' q' [unfolded side] f
    unfolding y_def by simp
qed

lemma uni_loop_post:
  assumes run: "uni_loop g hr t st = Some (Returns st')" and inv: "uni_inv g hr s t st"
    and nn: "nonneg_costs g"
  shows "uni_post g hr s t st'"
proof -
  define Q where "Q = (\<lambda>g hr t st y. nonneg_costs g \<longrightarrow> uni_inv g hr s t st \<longrightarrow>
                         (\<forall>st'. y = Returns st' \<longrightarrow> uni_post g hr s t st'))"
  have "Q g hr t st (Returns st')"
  proof (rule uni_loop.raw_induct [where P = Q, OF _ run], goal_cases)
    case (1 loop g hr t st y)
    show ?case unfolding Q_def
    proof (intro impI allI)
      fix st'
      assume nn: "nonneg_costs g" and inv: "uni_inv g hr s t st" and y: "y = Returns st'"
      have IH: "uni_post g hr s t st'" if "loop g hr t x = Some y" "uni_inv g hr s t x" for x
        using 1(1) [OF that(1)] that(2) nn y unfolding Q_def by blast
      obtain L where a: "side_inv (uni_link g hr) (uni_pack s 0) 0 L (u_dist_map st, u_parent_map st, u_pq st)"
        using inv unfolding uni_inv_def uni_side_def by blast
      have nf: "\<not> u_found st" and bi: "u_best_dist st = PInf"
        and cl: "closed_inv (uni_link g hr) (u_dist_map st, u_parent_map st, u_pq st)"
        and qd: "\<And>z. uni_edge z = t \<Longrightarrow> queued (u_dist_map st, u_parent_map st, u_pq st) z"
        using inv unfolding uni_inv_def uni_side_def by simp_all
      have Ds: "u_dist_map st (uni_pack s 0) = Some 0" using side_invD(1) [OF a] .
      have lnn: "\<forall>x y c. uni_link g hr x y c \<longrightarrow> 0 \<le> c" using uni_link_nonneg [OF nn] by blast
      show "uni_post g hr s t st'"
      proof (cases "pq_top (u_pq st)")
        case None
        then have e: "st' = st" "u_pq st = []" using 1(2) y by (simp_all add: pq_top_None)
        have "False" if p: "uni_accepts g hr s t ys cs" for ys cs
        proof -
          have t: "uni_edge (last ys) = t" using p unfolding uni_accepts_def by simp
          show False
            using connects_frontier [OF cl lnn uni_accepts_connects [OF p] Ds] qd [OF t] e(2)
            unfolding queued_def by auto
        qed
        then show ?thesis unfolding uni_post_def e(1) using a nf unfolding uni_side_def by blast
      next
        case (Some e)
        obtain d cur where e: "e = (d, cur)" by (cases e)
        have top: "pq_top (u_pq st) = Some (d, cur)" using Some e by simp
        define st1 where "st1 = st\<lparr>u_pq := pq_pop (u_pq st)\<rparr>"
        note p = side_inv_pop [OF a top]
        obtain x where x: "u_dist_map st cur = Some x" "x \<le> d" using p by blast
        have mi: "map_index (u_dist_map st1) cur = (x, u_dist_map st1)"
          using x unfolding st1_def by (simp add: map_index_Some)
        have st2: "st1\<lparr>u_dist_map := u_dist_map st1\<rparr> = st1" by simp
        have side1: "uni_side st1 = (u_dist_map st, u_parent_map st, pq_pop (u_pq st))"
          unfolding uni_side_def st1_def by simp
        have s1: "side_inv (uni_link g hr) (uni_pack s 0) 0 d (uni_side st1)"
          using p unfolding side1 by simp
        have nf1: "\<not> u_found st1" "u_best_dist st1 = PInf" using nf bi unfolding st1_def by simp_all
        have body: "(if d > x then loop g hr t st1
                     else if uni_edge cur = t
                     then Some (Returns (st1\<lparr>u_best_dist := Fin (d + get_edge_cost g t),
                                              u_best_end_state := cur, u_found := True\<rparr>))
                     else case fwd_neighbours g (uni_edge cur) of OutOfBounds \<Rightarrow> Some OutOfBounds
                          | Returns scs \<Rightarrow> loop g hr t (fold (uni_relax hr d cur) scs st1)) = Some y"
          using 1(2) top mi nf1(2) unfolding st1_def [symmetric]
          apply (simp add: Let_def)
          apply (simp only: st2)
          apply (simp split: if_splits)
          done
        show ?thesis
        proof (cases "d > x")
          case True
          then have "loop g hr t st1 = Some y" using body by simp
          moreover have "queued (u_dist_map st, u_parent_map st, pq_pop (u_pq st)) z"
            if z: "uni_edge z = t" for z
          proof -
            have "cur \<noteq> z \<or> u_dist_map st z \<noteq> Some d" using x True by auto
            then show ?thesis using queued_pop [OF qd [OF z] top] by simp
          qed
          then have "uni_inv g hr s t st1"
            unfolding uni_inv_def side1
            using s1 nf1 closed_pop_stale [OF cl top x(1) True]
            unfolding side1 by auto
          ultimately show ?thesis by (rule IH)
        next
          case False
          then have xd: "x = d" using x by simp
          have d1: "u_dist_map st1 cur = Some d" using x xd unfolding st1_def by simp
          show ?thesis
          proof (cases "uni_edge cur = t")
            case True
            then have st': "st' = st1\<lparr>u_best_dist := Fin (d + get_edge_cost g t),
                                       u_best_end_state := cur, u_found := True\<rparr>"
              using body False y by simp
            have "d \<le> sum_list cs" if pc: "uni_accepts g hr s t ys cs" for ys cs
            proof -
              have tz: "uni_edge (last ys) = t" using pc unfolding uni_accepts_def by simp
              consider (q) y' b where "u_dist_map st y' = Some b" "(b, y') \<in> set (u_pq st)" "b \<le> 0 + sum_list cs"
                | (e) b where "u_dist_map st (last ys) = Some b" "b \<le> 0 + sum_list cs"
                using connects_frontier [OF cl lnn uni_accepts_connects [OF pc] Ds] by blast
              then show ?thesis
              proof cases
                case q
                then show ?thesis using pq_top_le [OF top q(2)] by simp
              next
                case e
                have "(b, last ys) \<in> set (u_pq st)" using qd [OF tz] e(1) unfolding queued_def by simp
                then show ?thesis using pq_top_le [OF top] e(2) by fastforce
              qed
            qed
            then show ?thesis unfolding uni_post_def st' using s1 d1 True unfolding uni_side_def by auto
          next
            case ut: False
            obtain scs where n: "fwd_neighbours g (uni_edge cur) = Returns scs"
              and rec: "loop g hr t (fold (uni_relax hr d cur) scs st1) = Some y"
              using body False ut y by (cases "fwd_neighbours g (uni_edge cur)") auto
            have q1: "queued (uni_side st1) z" if z: "uni_edge z = t" for z
            proof -
              have "cur \<noteq> z \<or> u_dist_map st z \<noteq> Some d" using ut z by auto
              then show ?thesis unfolding side1 using queued_pop [OF qd [OF z] top] by simp
            qed
            have "uni_scan g hr s t d cur ([] @ scs) (fold (uni_relax hr d cur) scs st1)"
            proof (rule fold_inv_prefix [where I = "uni_scan g hr s t d cur"])
              have "uni_seen hr cur [] = {}" unfolding uni_seen_def by simp
              then show "uni_scan g hr s t d cur [] st1"
                unfolding uni_scan_def
                using s1 d1 nf1 closed_pop_scan [OF cl top] q1
                unfolding side1 by simp
              show "uni_scan g hr s t d cur (xs @ [sc]) (uni_relax hr d cur sc s')"
                if "sc \<in> set scs" "uni_scan g hr s t d cur xs s'" for xs sc s'
                using uni_scan_relax [OF that(2,1) n nn] .
            qed
            then have fin: "uni_scan g hr s t d cur scs (fold (uni_relax hr d cur) scs st1)" by simp
            define st3 where "st3 = fold (uni_relax hr d cur) scs st1"
            have all: "(y', c) \<in> uni_seen hr cur scs" if "uni_link g hr cur y' c" for y' c
              using that n unfolding uni_link_def scanned_fwd_def uni_seen_def
              by (auto split: option.splits)
            have f3: "side_inv (uni_link g hr) (uni_pack s 0) 0 d (u_dist_map st3, u_parent_map st3, u_pq st3)"
              "u_dist_map st3 cur = Some d"
              "scan_closed (uni_link g hr) cur d (uni_seen hr cur scs) (u_dist_map st3, u_parent_map st3, u_pq st3)"
              "\<And>z. uni_edge z = t \<Longrightarrow> queued (uni_side st3) z"
              "\<not> u_found st3" "u_best_dist st3 = PInf"
              using fin unfolding st3_def [symmetric] uni_scan_def uni_side_def by simp_all
            have "closed_inv (uni_link g hr) (u_dist_map st3, u_parent_map st3, u_pq st3)"
              using scan_closed_done [OF f3(3) f3(2)] all by blast
            then have "uni_inv g hr s t st3"
              using f3 unfolding uni_inv_def uni_side_def by blast
            then show ?thesis using IH [OF rec [folded st3_def]] by simp
          qed
        qed
      qed
    qed
  qed
  then show ?thesis using inv nn unfolding Q_def by blast
qed

lemma uni_trace_chain:
  assumes inv: "side_inv lnk rt r0 L (D, P, Q)"
    and run: "uni_trace P cur acc = Some res" and x: "D cur = Some x"
  shows "\<exists>vs cs. res = acc @ map uni_edge (cur # vs) \<and> last (cur # vs) = rt \<and>
           path_links (\<lambda>a b c. lnk b a c) (cur # vs) cs \<and> x = r0 + sum_list cs"
proof -
  note I = side_invD [OF inv]
  define R where "R = (\<lambda>P' cur acc res. P' = P \<longrightarrow> (\<forall>x. D cur = Some x \<longrightarrow>
     (\<exists>vs cs. res = acc @ map uni_edge (cur # vs) \<and> last (cur # vs) = rt \<and>
           path_links (\<lambda>a b c. lnk b a c) (cur # vs) cs \<and> x = r0 + sum_list cs)))"
  have "R P cur acc res"
  proof (rule uni_trace.raw_induct [where P = R, OF _ run], goal_cases)
    case (1 tr P' cur acc res)
    show ?case unfolding R_def
    proof (intro impI allI)
      fix x assume P': "P' = P" and x: "D cur = Some x"
      obtain p where p: "P cur = Some p" using I(5) [of cur] x by auto
      show "\<exists>vs cs. res = acc @ map uni_edge (cur # vs) \<and> last (cur # vs) = rt \<and>
           path_links (\<lambda>a b c. lnk b a c) (cur # vs) cs \<and> x = r0 + sum_list cs"
      proof (cases "p = cur")
        case True
        then have "res = acc @ [uni_edge cur]" using 1(2) p P' by (simp add: Let_def)
        moreover have "cur = rt" using I(7) [of cur] p True by simp
        moreover have "x = r0" using I(1) x \<open>cur = rt\<close> by simp
        ultimately show ?thesis by (intro exI [of _ "[]"]) simp
      next
        case False
        then have rec: "tr P p (acc @ [uni_edge cur]) = Some res" using 1(2) p P' by (simp add: Let_def)
        obtain c fp where l: "lnk p cur c" "D p = Some fp" "D cur = Some (fp + c)"
          using I(6) [OF p False] by blast
        obtain vs cs where r: "res = (acc @ [uni_edge cur]) @ map uni_edge (p # vs)" "last (p # vs) = rt"
            "path_links (\<lambda>a b c. lnk b a c) (p # vs) cs" "fp = r0 + sum_list cs"
          using 1(1) [OF rec] l(2) unfolding R_def by blast
        show ?thesis
          apply (rule exI [of _ "p # vs"])
          apply (rule exI [of _ "c # cs"])
          using r l x by simp
      qed
    qed
  qed
  then show ?thesis using x unfolding R_def by blast
qed

lemma uni_init_inv: "uni_inv g hr s t (uni_init s)"
proof -
  have f: "side_inv (uni_link g hr) (uni_pack s 0) 0 0
              ([uni_pack s 0 \<mapsto> 0], [uni_pack s 0 \<mapsto> uni_pack s 0], pq_push (0, uni_pack s 0) [])"
    by (rule side_invI) (auto simp: pq_push_def split: if_splits)
  have c: "closed_inv (uni_link g hr)
              ([uni_pack s 0 \<mapsto> 0], [uni_pack s 0 \<mapsto> uni_pack s 0], pq_push (0, uni_pack s 0) [])"
    unfolding closed_inv_def pq_push_def by (auto split: if_splits)
  have q: "queued ([uni_pack s 0 \<mapsto> 0], [uni_pack s 0 \<mapsto> uni_pack s 0], pq_push (0, uni_pack s 0) []) z" for z
    unfolding queued_def pq_push_def by (auto split: if_splits)
  show ?thesis
    unfolding uni_inv_def uni_init_def uni_side_def Let_def using f c q by auto
qed

lemma uni_accepts_self:
  assumes nn: "nonneg_costs g"
  shows "uni_accepts g hr s s [uni_pack s 0] []"
    and "uni_accepts g hr s t ys cs \<Longrightarrow> 0 \<le> sum_list cs"
proof -
  show "uni_accepts g hr s s [uni_pack s 0] []"
    unfolding uni_accepts_def by (simp add: uni_edge_pack)
  assume "uni_accepts g hr s t ys cs"
  then have "path_links (uni_link g hr) ys cs" unfolding uni_accepts_def by simp
  then show "0 \<le> sum_list cs" using path_links_nonneg uni_link_nonneg [OF nn] by blast
qed

lemma uni_query_correct:
  assumes nn: "nonneg_costs g" and q: "query_unidirectional h g s t = Some (Returns r)"
    and re: "reachable r"
  shows "(\<exists>xs cs. uni_accepts g (hc_res (compute_high_cell h g s t)) s t xs cs \<and>
            path r = map uni_edge xs \<and> distance r = sum_list cs + get_edge_cost g t) \<and>
         (\<forall>ys ds. uni_accepts g (hc_res (compute_high_cell h g s t)) s t ys ds \<longrightarrow>
            distance r \<le> sum_list ds + get_edge_cost g t)"
proof (cases "s = t")
  case True
  then have r: "r = self_result g s" using q unfolding query_unidirectional_def by simp
  have 1: "\<exists>xs cs. uni_accepts g (hc_res (compute_high_cell h g s t)) s t xs cs \<and>
            path r = map uni_edge xs \<and> distance r = sum_list cs + get_edge_cost g t"
    apply (rule exI [of _ "[uni_pack s 0]"])
    apply (rule exI [of _ "[]"])
    using uni_accepts_self(1) [OF nn] True r unfolding self_result_def by (simp add: uni_edge_pack)
  have 2: "distance r \<le> sum_list ds + get_edge_cost g t"
    if "uni_accepts g (hc_res (compute_high_cell h g s t)) s t ys ds" for ys ds
    using uni_accepts_self(2) [OF nn that] True r unfolding self_result_def by simp
  show ?thesis using 1 2 by blast
next
  case False
  define hr where "hr = hc_res (compute_high_cell h g s t)"
  have nr: "\<not> reachable (no_result msg)" for msg unfolding no_result_def by simp
  have v: "is_valid_edge g s" "is_valid_edge g t"
    using q re nr False unfolding query_unidirectional_def by (auto split: if_splits)
  obtain st where st: "uni_loop g hr t (uni_init s) = Some (Returns st)"
      and fin: "uni_finish st = Some r"
    using q False v unfolding query_unidirectional_def hr_def Let_def
    by (auto split: option.splits outcome.splits)
  have post: "uni_post g hr s t st"
    using uni_loop_post [OF st uni_init_inv nn] .
  have fo: "u_found st" using fin re nr unfolding uni_finish_def by (auto split: if_splits)
  obtain acc where acc: "uni_trace (u_parent_map st) (u_best_end_state st) [] = Some acc"
      and r: "r = \<lparr> distance = the_fin (u_best_dist st), path = rev acc, reachable = True, error = [] \<rparr>"
    using fin fo unfolding uni_finish_def by (auto split: option.splits)
  obtain d L where d: "u_best_dist st = Fin (d + get_edge_cost g t)"
      "uni_edge (u_best_end_state st) = t"
      "u_dist_map st (u_best_end_state st) = Some d"
     and least: "\<And>ys cs. uni_accepts g hr s t ys cs \<Longrightarrow> d \<le> sum_list cs"
     and si: "side_inv (uni_link g hr) (uni_pack s 0) 0 L (u_dist_map st, u_parent_map st, u_pq st)"
    using post fo unfolding uni_post_def uni_side_def by blast
  define e where "e = u_best_end_state st"
  obtain vs cs where c: "acc = map uni_edge (e # vs)" "last (e # vs) = uni_pack s 0"
      "path_links (\<lambda>a b c. uni_link g hr b a c) (e # vs) cs" "d = 0 + sum_list cs"
    using uni_trace_chain [OF si acc d(3)] unfolding e_def by auto
  have 1: "path_links (uni_link g hr) (rev (e # vs)) (rev cs)"
    using path_links_rev [OF c(3)] .
  have 2: "hd (rev (e # vs)) = uni_pack s 0" using c(2) by (simp add: hd_rev del: rev.simps last.simps)
  have 3: "uni_edge (last (rev (e # vs))) = t" using d(2) unfolding e_def by simp
  have A: "uni_accepts g hr s t (rev (e # vs)) (rev cs)"
    unfolding uni_accepts_def using 1 2 3 by blast
  have B: "path r = map uni_edge (rev (e # vs))" unfolding r c(1) by (simp add: rev_map)
  have C: "distance r = sum_list (rev cs) + get_edge_cost g t"
    unfolding r using d(1) c(4) by (simp add: the_fin_def)
  have D: "distance r \<le> sum_list ds + get_edge_cost g t" if "uni_accepts g hr s t ys ds" for ys ds
    using least [OF that] C c(4) by simp
  show ?thesis unfolding hr_def [symmetric] using A B C D by blast
qed

lemma uni_no_path:
  assumes nn: "nonneg_costs g" and q: "query_unidirectional h g s t = Some (Returns r)"
    and e: "error r = ''No path found''"
  shows "\<not> uni_accepts g (hc_res (compute_high_cell h g s t)) s t ys ds"
proof -
  define hr where "hr = hc_res (compute_high_cell h g s t)"
  have ne: "s \<noteq> t" using q e unfolding query_unidirectional_def self_result_def by auto
  have v: "is_valid_edge g s" "is_valid_edge g t"
    using q e ne unfolding query_unidirectional_def no_result_def by (auto split: if_splits)
  obtain st where st: "uni_loop g hr t (uni_init s) = Some (Returns st)"
      and fin: "uni_finish st = Some r"
    using q ne v unfolding query_unidirectional_def hr_def Let_def
    by (auto split: option.splits outcome.splits)
  have post: "uni_post g hr s t st"
    using uni_loop_post [OF st uni_init_inv nn] .
  have "\<not> u_found st" using fin e unfolding uni_finish_def by (auto split: if_splits option.splits)
  then show ?thesis using post unfolding uni_post_def hr_def by blast
qed

text \<open>The pruning rules of \<^verbatim>\<open>CSRGraph::query_unidirectional\<close> in \<^verbatim>\<open>csr_graph.cpp\<close>, as a table.\<close>

lemma uni_phase_rules:
  "uni_phase_step high_res phase sc =
     (if phase = 0 \<or> phase = 1
      then (if sc_inside sc = 1 then (if get_res sc > high_res then Some 1 else Some 2)
            else Some 2)
      else if phase = 2 then (if sc_inside sc \<noteq> 1 then Some 3 else None)
      else if phase = 3 then (if sc_inside sc = -1 then Some 3 else None)
      else None)"
  by (simp add: uni_phase_step_def)

text \<open>
  Claim C4, as amended.  \<^verbatim>\<open>CSRGraph::query_unidirectional\<close> of \<^verbatim>\<open>csr_graph.cpp\<close> searches
  the states \<open>(edge, phase)\<close> and expands a shortcut exactly by the rules of
  \<open>uni_phase_step\<close>: in phase 0 or 1, \<open>inside = +1\<close> is allowed and leads to phase 1 when
  the resolution of the shortcut is above \<open>high_res\<close> and to phase 2 otherwise, and any
  other \<open>inside\<close> is allowed and leads to phase 2; in phase 2 every \<open>inside\<close> but \<open>+1\<close> is
  allowed and leads to phase 3; in phase 3 only \<open>inside = -1\<close> is allowed.  On a store
  without negative costs: a reachable result is a path these rules accept, from the source
  in phase 0 to the target, its distance is the cost of that path plus
  \<open>edge_cost(target)\<close>, and no accepted path costs less; and \<^verbatim>\<open>No path found\<close> is returned
  only when the rules accept no path at all.
\<close>

theorem uni_four_phase:
  assumes "nonneg_costs g" and "query_unidirectional h g s t = Some (Returns r)"
  shows "(reachable r \<longrightarrow>
            (\<exists>xs cs. uni_accepts g (hc_res (compute_high_cell h g s t)) s t xs cs \<and>
                path r = map uni_edge xs \<and> distance r = sum_list cs + get_edge_cost g t) \<and>
            (\<forall>ys ds. uni_accepts g (hc_res (compute_high_cell h g s t)) s t ys ds \<longrightarrow>
                distance r \<le> sum_list ds + get_edge_cost g t)) \<and>
         (error r = ''No path found'' \<longrightarrow>
            (\<forall>ys ds. \<not> uni_accepts g (hc_res (compute_high_cell h g s t)) s t ys ds))"
  using uni_query_correct [OF assms] uni_no_path [OF assms] by blast

text \<open>
  On the store of three shortcuts \<open>(1,2,+1)\<close>, \<open>(2,3,+1)\<close>, \<open>(3,4,-1)\<close> with trivial
  hierarchy: from edge 2 the search climbs into phase 2 and descends into phase 3; from
  edge 1 the second climb is refused in phase 2, and no path is found.
\<close>

theorem uni_four_phase_witness:
  "nonneg_costs graph_s4 \<and>
   query_unidirectional h3_library graph_s4 2 4 =
     Some (Returns \<lparr> distance = 12, path = [2, 3, 4], reachable = True, error = [] \<rparr>) \<and>
   hc_res (compute_high_cell h3_library graph_s4 2 4) = -1 \<and>
   uni_accepts graph_s4 (-1) 2 4 [uni_pack 2 0, uni_pack 3 2, uni_pack 4 3] [5, 6] \<and>
   (12 :: real) \<le> sum_list [5, 6] + get_edge_cost graph_s4 4 \<and>
   query_unidirectional h3_library graph_s4 1 4 =
     Some (Returns \<lparr> distance = -1, path = [], reachable = False, error = ''No path found'' \<rparr>) \<and>
   hc_res (compute_high_cell h3_library graph_s4 1 4) = -1 \<and>
   \<not> uni_accepts graph_s4 (-1) 1 4 [uni_pack 1 0, uni_pack 2 2, uni_pack 3 3, uni_pack 4 3] [4, 5, 6]"
proof -
  have n: "nonneg_costs graph_s4" by code_simp
  have q: "query_unidirectional h3_library graph_s4 2 4 =
     Some (Returns \<lparr> distance = 12, path = [2, 3, 4], reachable = True, error = [] \<rparr>)"
    by code_simp
  have q': "query_unidirectional h3_library graph_s4 1 4 =
     Some (Returns \<lparr> distance = -1, path = [], reachable = False, error = ''No path found'' \<rparr>)"
    by code_simp
  have hr: "hc_res (compute_high_cell h3_library graph_s4 2 4) = -1"
    "hc_res (compute_high_cell h3_library graph_s4 1 4) = -1" by code_simp+
  have a: "uni_accepts graph_s4 (-1) 2 4 [uni_pack 2 0, uni_pack 3 2, uni_pack 4 3] [5, 6]"
    by code_simp
  from uni_four_phase [OF n q]
  have "\<forall>ys ds. uni_accepts graph_s4 (-1) 2 4 ys ds \<longrightarrow>
          (12 :: real) \<le> sum_list ds + get_edge_cost graph_s4 4"
    unfolding hr by simp
  then have le: "(12 :: real) \<le> sum_list [5, 6] + get_edge_cost graph_s4 4"
    using a by blast
  from uni_four_phase [OF n q']
  have no: "\<not> uni_accepts graph_s4 (-1) 1 4 [uni_pack 1 0, uni_pack 2 2, uni_pack 3 3, uni_pack 4 3] [4, 5, 6]"
    unfolding hr by simp
  show ?thesis
    using n q hr a le q' no by blast
qed

text \<open>
  Claim C4 as stated fails for \<^verbatim>\<open>CSRGraph::query_unidirectional\<close>.  Edge 1 has
  \<open>lca_res = -1\<close> and \<open>high_res\<close> is \<open>-1\<close>, so the search is at the peak; the rules of the
  claim allow no shortcut with \<open>inside = +1\<close> there (\<open>uni_legacy_step\<close>, the rules of
  \<^verbatim>\<open>ShortcutGraph::query_unidirectional\<close>, are those of the claim).  The query expands the
  shortcut \<open>(1, 2)\<close> with \<open>inside = +1\<close> all the same and returns the path \<open>[1, 2]\<close>.
\<close>

theorem uni_four_phase_counterexample:
  "query_unidirectional h3_library graph_s4 1 2 =
     Some (Returns \<lparr> distance = 5, path = [1, 2], reachable = True, error = [] \<rparr>) \<and>
   hc_res (compute_high_cell h3_library graph_s4 1 2) = -1 \<and>
   edge_meta graph_s4 1 = Some (mk_edge 1) \<and> lca_res (mk_edge 1) = -1 \<and>
   find_shortcut_index graph_s4 1 2 = Returns 0 \<and>
   sc_inside (shortcuts graph_s4 ! 0) = 1 \<and>
   uni_legacy_step (-1) (-1) 0 False 1 = None"
  by code_simp
section \<open>The searches compared\<close>































































end
